theory Spec2Isabelle
  imports Main "HOL-Library.Sublist"
begin

section \<open>The storage engine boundary\<close>

text \<open>
  Values as the engine hands them back after decoding. JavaScript's \<open>undefined\<close> and
  \<open>null\<close> are values of their own: the source tests for both.
\<close>

datatype jval = JUndefined | JNull | JNum int | JStr string

text \<open>
  Every \<open>throw new Error(...)\<close> of the source and the engine's "Key not found in
  database" rejection, as values.
\<close>

datatype error =
    NotFound
  | AlreadyExists
  | DoesNotExist
  | CannotReadOutsideBounds
  | CannotWriteOutsideBounds
  | TypeError

text \<open>
  What awaiting a promise gives: its value, its rejection, or nothing at all when the
  promise is never settled.
\<close>

datatype 'a outcome = Resolved 'a | Rejected error | Pending

type_synonym store = "string \<rightharpoonup> jval"

definition level_get :: "store \<Rightarrow> string \<Rightarrow> error + jval" where
  "level_get s k = (case s k of None \<Rightarrow> Inl NotFound | Some v \<Rightarrow> Inr v)"

definition level_put :: "store \<Rightarrow> string \<Rightarrow> jval \<Rightarrow> store" where
  "level_put s k v = s(k \<mapsto> v)"

definition level_del :: "store \<Rightarrow> string \<Rightarrow> store" where
  "level_del s k = s(k := None)"

text \<open>
  \<open>sub(db, name)\<close>: a handle on the keys of \<open>db\<close> that start with
  \<open>"!" + name + "!"\<close>. A handle is the prefix it puts before every key; the root
  handle is the empty prefix.
\<close>

definition sub :: "string \<Rightarrow> string \<Rightarrow> string" where
  "sub pre name = pre @ ''!'' @ name @ ''!''"

text \<open>\<open>db.clear()\<close> on a handle removes every key under the handle's prefix.\<close>

definition level_clear :: "store \<Rightarrow> string \<Rightarrow> store" where
  "level_clear s pre = (\<lambda>k. if prefix pre k then None else s k)"

section \<open>AurumDB: the namespace manager\<close>

definition makeSubDbId :: "string \<Rightarrow> string \<Rightarrow> string" where
  "makeSubDbId subDbName ident = ''!'' @ subDbName @ ''!'' @ ident"

definition META_KEY :: string where
  "META_KEY = ''!!meta!!''"

record aurumdb =
  store :: store
  db :: string
  autoDeleteOnSetUndefined :: bool

definition has :: "'a aurumdb_scheme \<Rightarrow> string \<Rightarrow> bool" where
  "has d key = (case level_get (store d) (db d @ key) of Inl e \<Rightarrow> False | Inr v \<Rightarrow> True)"

definition hasIndex :: "'a aurumdb_scheme \<Rightarrow> string \<Rightarrow> bool" where
  "hasIndex d name = has d (makeSubDbId (name @ ''index'') META_KEY)"

definition hasOrderedCollection :: "'a aurumdb_scheme \<Rightarrow> string \<Rightarrow> bool" where
  "hasOrderedCollection d name = has d (makeSubDbId (name @ ''ordered'') META_KEY)"

definition hasLinkedCollection :: "'a aurumdb_scheme \<Rightarrow> string \<Rightarrow> bool" where
  "hasLinkedCollection d name = has d (makeSubDbId (name @ ''linked'') META_KEY)"

section \<open>AurumDBIndex\<close>

text \<open>
  The reactive objects are shared between the index and its callers, so they live in a
  heap and the registries hold references: \<open>mapDataSources\<close> maps the reference of
  a \<open>MapDataSource\<close> to its entries, \<open>dataSources\<close> the reference of a
  \<open>DataSource\<close> to its current value. \<open>keyObservers\<close> is the JavaScript
  \<open>Map\<close> from key to the list of its observers, in insertion order.
\<close>

record index_state = aurumdb +
  totalObservers :: "nat list"
  keyObservers :: "(string \<times> nat list) list"
  mapDataSources :: "nat \<Rightarrow> (string \<rightharpoonup> jval)"
  dataSources :: "nat \<Rightarrow> jval"
  nextRef :: nat

definition newIndex :: "store \<Rightarrow> string \<Rightarrow> bool \<Rightarrow> index_state" where
  "newIndex s handle config =
     \<lparr>store = s, db = handle, autoDeleteOnSetUndefined = config,
      totalObservers = [], keyObservers = [],
      mapDataSources = (\<lambda>r. Map.empty), dataSources = (\<lambda>r. JUndefined), nextRef = 0\<rparr>"

definition createIndex :: "'a aurumdb_scheme \<Rightarrow> string \<Rightarrow> string \<Rightarrow> error + index_state" where
  "createIndex d name now =
     (if hasIndex d name then Inl AlreadyExists
      else let name' = name @ ''index'' in
        Inr (newIndex (level_put (store d) (db d @ makeSubDbId name' META_KEY) (JStr now))
               (sub (db d) name') (autoDeleteOnSetUndefined d)))"

definition getIndex :: "'a aurumdb_scheme \<Rightarrow> string \<Rightarrow> error + index_state" where
  "getIndex d name =
     (if hasIndex d name
      then Inr (newIndex (store d) (sub (db d) (name @ ''index'')) (autoDeleteOnSetUndefined d))
      else Inl DoesNotExist)"

text \<open>The event handlers installed by the constructor.\<close>

definition onClear :: "index_state \<Rightarrow> index_state" where
  "onClear st =
     st\<lparr>mapDataSources := fold (\<lambda>mds h. h(mds := Map.empty)) (totalObservers st) (mapDataSources st),
        dataSources := fold (\<lambda>dss h. fold (\<lambda>ds h'. h'(ds := JUndefined)) dss h)
                         (map snd (keyObservers st)) (dataSources st)\<rparr>"

definition onKeyChange :: "string \<Rightarrow> jval \<Rightarrow> index_state \<Rightarrow> index_state" where
  "onKeyChange k v st =
     st\<lparr>mapDataSources :=
          fold (\<lambda>mds h. if v = JUndefined then h(mds := (h mds)(k := None))
                         else h(mds := (h mds)(k \<mapsto> v)))
               (totalObservers st) (mapDataSources st),
        dataSources :=
          (case map_of (keyObservers st) k of
             None \<Rightarrow> dataSources st
           | Some dss \<Rightarrow> fold (\<lambda>ds h. h(ds := v)) dss (dataSources st))\<rparr>"

datatype batch_op = Put string jval | Del string | Clear

fun onBatchOp :: "batch_op \<Rightarrow> index_state \<Rightarrow> index_state" where
  "onBatchOp (Put k v) st = onKeyChange k v st"
| "onBatchOp (Del k) st = onKeyChange k JUndefined st"
| "onBatchOp Clear st = onClear st"

definition onBatch :: "batch_op list \<Rightarrow> index_state \<Rightarrow> index_state" where
  "onBatch ops st = fold onBatchOp ops st"

text \<open>
  The engine's own operations on the index's handle: the write, then the event it emits.
\<close>

definition db_put :: "string \<Rightarrow> jval \<Rightarrow> index_state \<Rightarrow> index_state" where
  "db_put k v st = onKeyChange k v (st\<lparr>store := level_put (store st) (db st @ k) v\<rparr>)"

definition db_del :: "string \<Rightarrow> index_state \<Rightarrow> index_state" where
  "db_del k st = onKeyChange k JUndefined (st\<lparr>store := level_del (store st) (db st @ k)\<rparr>)"

definition db_clear :: "index_state \<Rightarrow> index_state" where
  "db_clear st = onClear (st\<lparr>store := level_clear (store st) (db st)\<rparr>)"

definition index_get :: "index_state \<Rightarrow> string \<Rightarrow> error + jval" where
  "index_get st key = level_get (store st) (db st @ key)"

definition index_set :: "string \<Rightarrow> jval \<Rightarrow> index_state \<Rightarrow> index_state" where
  "index_set key v st =
     (if autoDeleteOnSetUndefined st \<and> (v = JUndefined \<or> v = JNull)
      then db_del key st else db_put key v st)"

definition index_delete :: "string \<Rightarrow> index_state \<Rightarrow> index_state" where
  "index_delete key st = db_del key st"

definition index_clear :: "index_state \<Rightarrow> error + index_state" where
  "index_clear st =
     (case index_get st META_KEY of
        Inl e \<Rightarrow> Inl e
      | Inr val \<Rightarrow> Inr (index_set META_KEY val (db_clear st)))"

text \<open>
  \<open>observeKey\<close>: a new \<open>DataSource\<close>, set to the stored value when the key
  is there, appended to the key's registry entry. The second function is the cleanup the
  method hands to the cancellation token (\<open>indexOf\<close> then \<open>splice\<close>: the first
  occurrence goes, and nothing happens when there is none); \<open>dss.indexOf\<close> on a
  missing registry entry is a \<open>TypeError\<close>.
\<close>

definition registerKeyObserver :: "string \<Rightarrow> nat \<Rightarrow> (string \<times> nat list) list \<Rightarrow> (string \<times> nat list) list" where
  "registerKeyObserver key ds kos =
     (let kos' = (if map_of kos key = None then kos @ [(key, [])] else kos)
      in map (\<lambda>(k, dss). if k = key then (k, dss @ [ds]) else (k, dss)) kos')"

definition unregisterKeyObserver :: "string \<Rightarrow> nat \<Rightarrow> (string \<times> nat list) list \<Rightarrow> error + (string \<times> nat list) list" where
  "unregisterKeyObserver key ds kos =
     (case map_of kos key of
        None \<Rightarrow> Inl TypeError
      | Some dss \<Rightarrow> Inr (map (\<lambda>(k, l). if k = key then (k, remove1 ds l) else (k, l)) kos))"

definition observeKey :: "string \<Rightarrow> index_state \<Rightarrow> error + nat \<times> index_state" where
  "observeKey key st =
     (let ds = nextRef st;
          st1 = st\<lparr>nextRef := Suc ds, dataSources := (dataSources st)(ds := JUndefined)\<rparr>;
          reg = (\<lambda>s. s\<lparr>keyObservers := registerKeyObserver key ds (keyObservers s)\<rparr>)
      in if has st1 key
         then (case index_get st1 key of
                 Inl e \<Rightarrow> Inl e
               | Inr v \<Rightarrow> Inr (ds, reg (st1\<lparr>dataSources := (dataSources st1)(ds := v)\<rparr>)))
         else Inr (ds, reg st1))"

definition cancelObserveKey :: "string \<Rightarrow> nat \<Rightarrow> index_state \<Rightarrow> error + index_state" where
  "cancelObserveKey key ds st =
     (case unregisterKeyObserver key ds (keyObservers st) of
        Inl e \<Rightarrow> Inl e
      | Inr kos \<Rightarrow> Inr (st\<lparr>keyObservers := kos\<rparr>))"

text \<open>
  \<open>observeEntireIndex\<close>. The new \<open>MapDataSource\<close> is registered before the
  first cursor step. \<open>scan\<close> is the callback \<open>cb\<close> chained through
  \<open>iter.next\<close>, over the keys the cursor yields: a key without \<open>!\<close> is read
  with \<open>get\<close> and set in the result. When that \<open>get\<close> rejects, the rejection
  stays inside the \<open>async\<close> callback: neither \<open>resolve\<close> nor
  \<open>reject\<close> is called and the returned promise is never settled.
\<close>

fun scan :: "nat \<Rightarrow> string list \<Rightarrow> index_state \<Rightarrow> unit outcome \<times> index_state" where
  "scan result [] st = (Resolved (), st)"
| "scan result (key # keys) st =
     (if CHR ''!'' \<notin> set key
      then (case index_get st key of
              Inl e \<Rightarrow> (Pending, st)
            | Inr v \<Rightarrow> scan result keys
                (st\<lparr>mapDataSources := (mapDataSources st)(result := (mapDataSources st result)(key \<mapsto> v))\<rparr>))
      else scan result keys st)"

definition observeEntireIndex :: "string list \<Rightarrow> index_state \<Rightarrow> nat outcome \<times> index_state" where
  "observeEntireIndex cursorKeys st =
     (let result = nextRef st;
          st1 = st\<lparr>nextRef := Suc result,
                   mapDataSources := (mapDataSources st)(result := Map.empty),
                   totalObservers := totalObservers st @ [result]\<rparr>
      in case scan result cursorKeys st1 of
           (Resolved u, st2) \<Rightarrow> (Resolved result, st2)
         | (Rejected e, st2) \<Rightarrow> (Rejected e, st2)
         | (Pending, st2) \<Rightarrow> (Pending, st2))"

definition cancelObserveEntireIndex :: "nat \<Rightarrow> index_state \<Rightarrow> index_state" where
  "cancelObserveEntireIndex result st = st\<lparr>totalObservers := remove1 result (totalObservers st)\<rparr>"

section \<open>AurumDBLinkedCollection\<close>

record linked_state =
  linked_store :: store
  linked_db :: string

definition createLinkedCollection :: "'a aurumdb_scheme \<Rightarrow> string \<Rightarrow> error + linked_state" where
  "createLinkedCollection d name =
     (if hasLinkedCollection d name then Inl AlreadyExists
      else let name' = name @ ''linked'' in
        Inr \<lparr>linked_store = level_put (store d) (db d @ makeSubDbId name' META_KEY) (JNum 0),
             linked_db = sub (db d) name'\<rparr>)"

section \<open>AurumDBOrderedCollection\<close>

text \<open>
  Keys. The source passes slot keys to the engine as numbers (\<open>get\<close>,
  \<open>set\<close>, \<open>slice\<close>, \<open>pop\<close>, \<open>toArray\<close>) or as the template string
  \<open>`${len + i}`\<close> (\<open>push\<close>); the engine stores either under the decimal string
  of the number, and hands the key back in its events as it was given.
\<close>

definition digit :: "nat \<Rightarrow> char" where
  "digit n = char_of (48 + n)"

fun showNat :: "nat \<Rightarrow> string" where
  "showNat n = (if n < 10 then [digit n] else showNat (n div 10) @ [digit (n mod 10)])"

declare showNat.simps [simp del]

definition toString :: "int \<Rightarrow> string" where
  "toString i = (if i < 0 then CHR ''-'' # showNat (nat (- i)) else showNat (nat i))"

datatype jkey = KNum int | KStr string

fun keyString :: "jkey \<Rightarrow> string" where
  "keyString (KNum i) = toString i"
| "keyString (KStr s) = s"

text \<open>
  The \<open>lock\<close> field: \<open>undefined\<close> until the first \<open>push\<close> or
  \<open>pop\<close>, then the promise of the last one. That promise is built as
  \<open>new Promise(async (resolve) => ...)\<close>: when the body throws, \<open>resolve\<close> is
  never called and the promise is never settled.
\<close>

datatype lock = LockUndefined | LockResolved | LockNeverSettles

record oc_state =
  oc_store :: store
  oc_db :: string
  oc_totalObservers :: "nat list"
  oc_keyObservers :: "(string \<times> nat list) list"
  arrayDataSources :: "nat \<Rightarrow> jval list"
  oc_dataSources :: "nat \<Rightarrow> jval"
  oc_nextRef :: nat
  lock :: lock

definition newOrderedCollection :: "store \<Rightarrow> string \<Rightarrow> oc_state" where
  "newOrderedCollection s handle =
     \<lparr>oc_store = s, oc_db = handle, oc_totalObservers = [], oc_keyObservers = [],
      arrayDataSources = (\<lambda>r. []), oc_dataSources = (\<lambda>r. JUndefined), oc_nextRef = 0,
      lock = LockUndefined\<rparr>"

definition createOrderedCollection :: "'a aurumdb_scheme \<Rightarrow> string \<Rightarrow> error + oc_state" where
  "createOrderedCollection d name =
     (if hasOrderedCollection d name then Inl AlreadyExists
      else let name' = name @ ''ordered'' in
        Inr (newOrderedCollection (level_put (store d) (db d @ makeSubDbId name' META_KEY) (JNum 0))
               (sub (db d) name')))"

text \<open>
  The event handlers. \<open>keyObservers\<close> is a \<open>Map\<close> whose keys are strings
  (\<open>META_KEY\<close>, \<open>index.toString()\<close>); \<open>Map.has\<close> does not convert, so a
  key that arrives as a number finds no entry.
\<close>

definition oc_onClear :: "oc_state \<Rightarrow> oc_state" where
  "oc_onClear st =
     st\<lparr>oc_dataSources := fold (\<lambda>dss h. fold (\<lambda>ds h'. h'(ds := JUndefined)) dss h)
                            (map snd (oc_keyObservers st)) (oc_dataSources st)\<rparr>"

fun oc_onKeyChange :: "jkey \<Rightarrow> jval \<Rightarrow> oc_state \<Rightarrow> oc_state" where
  "oc_onKeyChange (KNum i) v st = st"
| "oc_onKeyChange (KStr k) v st =
     (case map_of (oc_keyObservers st) k of
        None \<Rightarrow> st
      | Some dss \<Rightarrow> st\<lparr>oc_dataSources := fold (\<lambda>ds h. h(ds := v)) dss (oc_dataSources st)\<rparr>)"

datatype oc_batch_op = BPut jkey jval | BDel jkey

fun oc_onBatchOp :: "oc_batch_op \<Rightarrow> oc_state \<Rightarrow> oc_state" where
  "oc_onBatchOp (BPut k v) st = oc_onKeyChange k v st"
| "oc_onBatchOp (BDel k) st = oc_onKeyChange k JUndefined st"

fun applyBatchOp :: "string \<Rightarrow> oc_batch_op \<Rightarrow> store \<Rightarrow> store" where
  "applyBatchOp handle (BPut k v) s = level_put s (handle @ keyString k) v"
| "applyBatchOp handle (BDel k) s = level_del s (handle @ keyString k)"

text \<open>\<open>batch.write()\<close>: every operation is applied, then one event carries them all.\<close>

definition batch_write :: "oc_batch_op list \<Rightarrow> oc_state \<Rightarrow> oc_state" where
  "batch_write ops st =
     fold oc_onBatchOp ops (st\<lparr>oc_store := fold (applyBatchOp (oc_db st)) ops (oc_store st)\<rparr>)"

definition oc_db_put :: "jkey \<Rightarrow> jval \<Rightarrow> oc_state \<Rightarrow> oc_state" where
  "oc_db_put k v st =
     oc_onKeyChange k v (st\<lparr>oc_store := level_put (oc_store st) (oc_db st @ keyString k) v\<rparr>)"

definition oc_db_clear :: "oc_state \<Rightarrow> oc_state" where
  "oc_db_clear st = oc_onClear (st\<lparr>oc_store := level_clear (oc_store st) (oc_db st)\<rparr>)"

definition oc_db_get :: "oc_state \<Rightarrow> jkey \<Rightarrow> error + jval" where
  "oc_db_get st k = level_get (oc_store st) (oc_db st @ keyString k)"

text \<open>
  The \<open>ArrayDataSource\<close> of the reactive library, as the JavaScript array it wraps:
  \<open>appendArray\<close>, \<open>pop\<close>, \<open>clear\<close>, and \<open>set\<close>, which extends the
  array when the index is past its end and leaves its elements alone when the index is
  negative.
\<close>

definition ads_set :: "int \<Rightarrow> jval \<Rightarrow> jval list \<Rightarrow> jval list" where
  "ads_set i v xs =
     (if i < 0 then xs
      else if nat i < length xs then xs[nat i := v]
      else xs @ replicate (nat i - length xs) JUndefined @ [v])"

definition forTotalObservers :: "(jval list \<Rightarrow> jval list) \<Rightarrow> oc_state \<Rightarrow> oc_state" where
  "forTotalObservers f st =
     st\<lparr>arrayDataSources := fold (\<lambda>ads h. h(ads := f (h ads))) (oc_totalObservers st) (arrayDataSources st)\<rparr>"

text \<open>
  \<open>length()\<close> is declared \<open>Promise<number>\<close>, and the class writes the metadata
  record with a number only. A record of another type is outside the declared type; the
  model has no number for it and rejects there.
\<close>

definition oc_length :: "oc_state \<Rightarrow> int outcome" where
  "oc_length st =
     (if lock st = LockNeverSettles then Pending
      else case oc_db_get st (KStr META_KEY) of
             Inl e \<Rightarrow> Rejected e
           | Inr (JNum n) \<Rightarrow> Resolved n
           | Inr v \<Rightarrow> Rejected TypeError)"

definition oc_get :: "int \<Rightarrow> oc_state \<Rightarrow> jval outcome" where
  "oc_get index st =
     (case oc_length st of
        Pending \<Rightarrow> Pending
      | Rejected e \<Rightarrow> Rejected e
      | Resolved len \<Rightarrow>
          if index > len then Rejected CannotReadOutsideBounds
          else (case oc_db_get st (KNum index) of Inl e \<Rightarrow> Rejected e | Inr v \<Rightarrow> Resolved v))"

definition oc_set :: "int \<Rightarrow> jval \<Rightarrow> oc_state \<Rightarrow> unit outcome \<times> oc_state" where
  "oc_set index item st =
     (case oc_length st of
        Pending \<Rightarrow> (Pending, st)
      | Rejected e \<Rightarrow> (Rejected e, st)
      | Resolved len \<Rightarrow>
          if index > len then (Rejected CannotWriteOutsideBounds, st)
          else (Resolved (), oc_db_put (KNum index) item (forTotalObservers (ads_set index item) st)))"

text \<open>
  The operations of the batch of \<open>push\<close>. The store of the model keeps for each key
  the value a read with the JSON encoding returns; for the items of a \<open>push\<close> that
  is what the engine does with numbers, the elements in the repository's tests.
\<close>

primrec pushOps :: "int \<Rightarrow> jval list \<Rightarrow> oc_batch_op list" where
  "pushOps k [] = []"
| "pushOps k (item # items) = BPut (KStr (toString k)) item # pushOps (k + 1) items"

definition oc_push :: "jval list \<Rightarrow> oc_state \<Rightarrow> unit outcome \<times> oc_state" where
  "oc_push items st =
     (if lock st = LockNeverSettles then (Pending, st)
      else case oc_length st of
             Resolved len \<Rightarrow>
               (let ops = pushOps len items @ [BPut (KStr META_KEY) (JNum (len + int (length items)))];
                    st1 = forTotalObservers (\<lambda>xs. xs @ items) st
                in (Resolved (), (batch_write ops st1)\<lparr>lock := LockResolved\<rparr>))
           | Rejected e \<Rightarrow> (Pending, st\<lparr>lock := LockNeverSettles\<rparr>)
           | Pending \<Rightarrow> (Pending, st\<lparr>lock := LockNeverSettles\<rparr>))"

definition oc_pop :: "oc_state \<Rightarrow> jval outcome \<times> oc_state" where
  "oc_pop st =
     (if lock st = LockNeverSettles then (Pending, st)
      else case oc_length st of
             Resolved len \<Rightarrow>
               (case oc_db_get st (KNum (len - 1)) of
                  Inl e \<Rightarrow> (Pending, st\<lparr>lock := LockNeverSettles\<rparr>)
                | Inr v \<Rightarrow>
                    (let ops = [BPut (KStr META_KEY) (JNum (len - 1)), BDel (KNum (len - 1))];
                         st1 = forTotalObservers butlast st
                     in (Resolved v, (batch_write ops st1)\<lparr>lock := LockResolved\<rparr>)))
           | Rejected e \<Rightarrow> (Pending, st\<lparr>lock := LockNeverSettles\<rparr>)
           | Pending \<Rightarrow> (Pending, st\<lparr>lock := LockNeverSettles\<rparr>))"

text \<open>The read loop of \<open>slice\<close> and \<open>toArray\<close>: slots \<open>i\<close> up to \<open>endIndex - 1\<close>.\<close>

function readLoop :: "oc_state \<Rightarrow> int \<Rightarrow> int \<Rightarrow> jval list \<Rightarrow> jval list outcome" where
  "readLoop st i endIndex items =
     (if i < endIndex
      then (case oc_db_get st (KNum i) of
              Inl e \<Rightarrow> Rejected e
            | Inr v \<Rightarrow> readLoop st (i + 1) endIndex (items @ [v]))
      else Resolved items)"
  by pat_completeness auto
termination
  by (relation "measure (\<lambda>(st, i, endIndex, items). nat (endIndex - i))") auto

declare readLoop.simps [simp del]

definition oc_slice :: "int \<Rightarrow> int \<Rightarrow> oc_state \<Rightarrow> jval list outcome" where
  "oc_slice startIndex endIndex st =
     (case oc_length st of
        Pending \<Rightarrow> Pending
      | Rejected e \<Rightarrow> Rejected e
      | Resolved len \<Rightarrow>
          if startIndex > len \<or> startIndex < 0 \<or> endIndex > len \<or> endIndex < 0
          then Rejected CannotWriteOutsideBounds
          else readLoop st startIndex endIndex [])"

definition oc_toArray :: "oc_state \<Rightarrow> jval list outcome" where
  "oc_toArray st =
     (case oc_length st of
        Pending \<Rightarrow> Pending
      | Rejected e \<Rightarrow> Rejected e
      | Resolved len \<Rightarrow> readLoop st 0 len [])"

text \<open>
  \<open>clear\<close> awaits the engine's clear, empties the whole-collection observers and
  issues the write of the length without awaiting it; the engine applies it next.
\<close>

definition oc_clear :: "oc_state \<Rightarrow> unit outcome \<times> oc_state" where
  "oc_clear st =
     (if lock st = LockNeverSettles then (Pending, st)
      else (Resolved (),
            oc_db_put (KStr META_KEY) (JNum 0) (forTotalObservers (\<lambda>xs. []) (oc_db_clear st))))"

definition oc_observeKey :: "string \<Rightarrow> oc_state \<Rightarrow> nat outcome \<times> oc_state" where
  "oc_observeKey key st =
     (if lock st = LockNeverSettles then (Pending, st)
      else let ds = oc_nextRef st;
               st1 = st\<lparr>oc_nextRef := Suc ds, oc_dataSources := (oc_dataSources st)(ds := JUndefined)\<rparr>;
               st2 = (case oc_db_get st1 (KStr key) of
                        Inl e \<Rightarrow> st1
                      | Inr v \<Rightarrow> st1\<lparr>oc_dataSources := (oc_dataSources st1)(ds := v)\<rparr>)
           in (Resolved ds, st2\<lparr>oc_keyObservers := registerKeyObserver key ds (oc_keyObservers st2)\<rparr>))"

definition observeLength :: "oc_state \<Rightarrow> nat outcome \<times> oc_state" where
  "observeLength st = oc_observeKey META_KEY st"

definition observeAt :: "int \<Rightarrow> oc_state \<Rightarrow> nat outcome \<times> oc_state" where
  "observeAt index st = oc_observeKey (toString index) st"

definition oc_cancelObserveKey :: "string \<Rightarrow> nat \<Rightarrow> oc_state \<Rightarrow> error + oc_state" where
  "oc_cancelObserveKey key ds st =
     (case unregisterKeyObserver key ds (oc_keyObservers st) of
        Inl e \<Rightarrow> Inl e
      | Inr kos \<Rightarrow> Inr (st\<lparr>oc_keyObservers := kos\<rparr>))"

definition observeEntireCollection :: "oc_state \<Rightarrow> nat outcome \<times> oc_state" where
  "observeEntireCollection st =
     (case oc_toArray st of
        Pending \<Rightarrow> (Pending, st)
      | Rejected e \<Rightarrow> (Rejected e, st)
      | Resolved items \<Rightarrow>
          (let ads = oc_nextRef st
           in (Resolved ads,
               st\<lparr>oc_nextRef := Suc ads,
                  arrayDataSources := (arrayDataSources st)(ads := items),
                  oc_totalObservers := oc_totalObservers st @ [ads]\<rparr>)))"

definition cancelObserveEntireCollection :: "nat \<Rightarrow> oc_state \<Rightarrow> oc_state" where
  "cancelObserveEntireCollection ads st = st\<lparr>oc_totalObservers := remove1 ads (oc_totalObservers st)\<rparr>"

text \<open>
  An ordered collection holds the list \<open>xs\<close>: its lock is not stuck, its metadata
  record is the length of \<open>xs\<close>, and slot \<open>i\<close> stores \<open>xs ! i\<close>.
\<close>

definition holds :: "oc_state \<Rightarrow> jval list \<Rightarrow> bool" where
  "holds st xs =
     (lock st \<noteq> LockNeverSettles
      \<and> oc_db_get st (KStr META_KEY) = Inr (JNum (int (length xs)))
      \<and> list_all (\<lambda>i. oc_db_get st (KNum (int i)) = Inr (xs ! i)) [0..<length xs])"

section \<open>Concrete inputs\<close>

definition emptyDb :: aurumdb where
  "emptyDb = \<lparr>store = Map.empty, db = [], autoDeleteOnSetUndefined = False\<rparr>"

text \<open>The collection of the test suite: created as \<open>test\<close>, then one \<open>push\<close>.\<close>

definition testCollection :: oc_state where
  "testCollection =
     (case createOrderedCollection emptyDb ''test'' of
        Inl e \<Rightarrow> newOrderedCollection Map.empty []
      | Inr st \<Rightarrow> st)"

definition pushedOnTest :: "jval list \<Rightarrow> oc_state" where
  "pushedOnTest items = snd (oc_push items testCollection)"

definition testIndex :: index_state where
  "testIndex =
     (case createIndex emptyDb ''test'' ''2020-01-01T00:00:00.000Z'' of
        Inl e \<Rightarrow> newIndex Map.empty [] False
      | Inr st \<Rightarrow> st)"

text \<open>
  Four calls on the fresh collection, each awaited: \<open>set(-1, 7)\<close>, \<open>pop()\<close>,
  \<open>set(-2, 8)\<close>, \<open>pop()\<close>.
\<close>

definition negativeLengthCollection :: oc_state where
  "negativeLengthCollection =
     snd (oc_pop (snd (oc_set (- 2) (JNum 8) (snd (oc_pop (snd (oc_set (- 1) (JNum 7) testCollection)))))))"

section \<open>Sequences of calls\<close>

text \<open>
  A batch on the index's handle: the engine applies the operations, then emits the one
  event the constructor's handler serves.
\<close>

fun applyIndexBatchOp :: "string \<Rightarrow> batch_op \<Rightarrow> store \<Rightarrow> store" where
  "applyIndexBatchOp handle (Put k v) s = level_put s (handle @ k) v"
| "applyIndexBatchOp handle (Del k) s = level_del s (handle @ k)"
| "applyIndexBatchOp handle Clear s = level_clear s handle"

definition db_batch :: "batch_op list \<Rightarrow> index_state \<Rightarrow> index_state" where
  "db_batch ops st = onBatch ops (st\<lparr>store := fold (applyIndexBatchOp (db st)) ops (store st)\<rparr>)"

text \<open>
  The calls a program can make on an index, one after the other, and the cleanups it can
  run by cancelling tokens. A call that throws leaves the state as it is.
  \<open>observeEntireIndex\<close> is not among them: its scan is a chain of callbacks with
  other calls in between, and has its own section below.
\<close>

datatype index_op =
    ISet string jval
  | IDelete string
  | IClear
  | IBatch "batch_op list"
  | IObserveKey string
  | ICancelKey string nat
  | ICancelEntireIndex nat

fun index_step :: "index_op \<Rightarrow> index_state \<Rightarrow> index_state" where
  "index_step (ISet k v) st = index_set k v st"
| "index_step (IDelete k) st = index_delete k st"
| "index_step IClear st = (case index_clear st of Inl e \<Rightarrow> st | Inr st' \<Rightarrow> st')"
| "index_step (IBatch ops) st = db_batch ops st"
| "index_step (IObserveKey key) st = (case observeKey key st of Inl e \<Rightarrow> st | Inr (ds, st') \<Rightarrow> st')"
| "index_step (ICancelKey key ds) st = (case cancelObserveKey key ds st of Inl e \<Rightarrow> st | Inr st' \<Rightarrow> st')"
| "index_step (ICancelEntireIndex r) st = cancelObserveEntireIndex r st"

definition index_run :: "index_op list \<Rightarrow> index_state \<Rightarrow> index_state" where
  "index_run ops st = fold index_step ops st"

datatype oc_op =
    OSet int jval
  | OPush "jval list"
  | OPop
  | OClear
  | OObserveKey string
  | OObserveEntireCollection
  | OCancelKey string nat
  | OCancelEntireCollection nat

fun oc_step :: "oc_op \<Rightarrow> oc_state \<Rightarrow> oc_state" where
  "oc_step (OSet i v) st = snd (oc_set i v st)"
| "oc_step (OPush items) st = snd (oc_push items st)"
| "oc_step OPop st = snd (oc_pop st)"
| "oc_step OClear st = snd (oc_clear st)"
| "oc_step (OObserveKey key) st = snd (oc_observeKey key st)"
| "oc_step OObserveEntireCollection st = snd (observeEntireCollection st)"
| "oc_step (OCancelKey key ds) st = (case oc_cancelObserveKey key ds st of Inl e \<Rightarrow> st | Inr st' \<Rightarrow> st')"
| "oc_step (OCancelEntireCollection r) st = cancelObserveEntireCollection r st"

definition oc_run :: "oc_op list \<Rightarrow> oc_state \<Rightarrow> oc_state" where
  "oc_run ops st = fold oc_step ops st"

text \<open>
  Well-formed registries: every reference was handed out by the allocator (it is below
  the next one) and no list holds a reference twice.
\<close>

definition wf_keyObservers :: "nat \<Rightarrow> (string \<times> nat list) list \<Rightarrow> bool" where
  "wf_keyObservers n kos = list_all (\<lambda>(k, dss). distinct dss \<and> list_all (\<lambda>r. r < n) dss) kos"

definition wf_totalObservers :: "nat \<Rightarrow> nat list \<Rightarrow> bool" where
  "wf_totalObservers n rs = (distinct rs \<and> list_all (\<lambda>r. r < n) rs)"

definition index_wf :: "index_state \<Rightarrow> bool" where
  "index_wf st = (wf_keyObservers (nextRef st) (keyObservers st)
                  \<and> wf_totalObservers (nextRef st) (totalObservers st))"

definition oc_wf :: "oc_state \<Rightarrow> bool" where
  "oc_wf st = (wf_keyObservers (oc_nextRef st) (oc_keyObservers st)
               \<and> wf_totalObservers (oc_nextRef st) (oc_totalObservers st))"

text \<open>Where a reference is registered.\<close>

definition registeredOnlyUnder :: "string \<Rightarrow> nat \<Rightarrow> (string \<times> nat list) list \<Rightarrow> bool" where
  "registeredOnlyUnder key ds kos = list_all (\<lambda>(k, dss). ds \<in> set dss \<longrightarrow> k = key) kos"

definition unregistered :: "nat \<Rightarrow> (string \<times> nat list) list \<Rightarrow> bool" where
  "unregistered ds kos = list_all (\<lambda>(k, dss). ds \<notin> set dss) kos"

section \<open>observeEntireIndex while the index is written\<close>

text \<open>
  The scan of \<open>observeEntireIndex\<close> is a chain of callbacks, and between two of them
  the program serves the events of writes that were issued meanwhile. One call in
  progress is the index, the reference of the result, the keys the snapshot cursor has
  still to yield, and where the chain stands:
  \<^item> \<open>AtCursor\<close>: \<open>iter.next(cb)\<close> is issued; \<open>cb\<close> runs with the next key, and
    either resolves (no key left), goes on (a key with \<open>!\<close>) or issues
    \<open>that.get(key)\<close> and suspends at the \<open>await\<close>;
  \<^item> \<open>GetIssued key\<close>: the engine has the read to do;
  \<^item> \<open>GetDone key r\<close>: the engine has done the read, \<open>cb\<close> is still suspended; when
    it resumes it sets the value in the result and issues \<open>iter.next(cb)\<close>, or, on a
    rejection, throws inside the \<open>async\<close> callback, after which nothing settles the
    promise;
  \<^item> \<open>ScanResolved\<close>, \<open>ScanStuck\<close>: the promise is resolved, or never will be.
\<close>

datatype scan_phase =
    AtCursor
  | GetIssued string
  | GetDone string "error + jval"
  | ScanResolved
  | ScanStuck

record observation =
  ix :: index_state
  result :: nat
  cursor :: "string list"
  phase :: scan_phase

definition beginObserveEntireIndex :: "string list \<Rightarrow> index_state \<Rightarrow> observation" where
  "beginObserveEntireIndex cursorKeys st =
     \<lparr>ix = st\<lparr>nextRef := Suc (nextRef st),
               mapDataSources := (mapDataSources st)(nextRef st := Map.empty),
               totalObservers := totalObservers st @ [nextRef st]\<rparr>,
      result = nextRef st, cursor = cursorKeys, phase = AtCursor\<rparr>"

definition scanStep :: "observation \<Rightarrow> observation" where
  "scanStep ob =
     (case phase ob of
        AtCursor \<Rightarrow>
          (case cursor ob of
             [] \<Rightarrow> ob\<lparr>phase := ScanResolved\<rparr>
           | key # keys \<Rightarrow>
               if CHR ''!'' \<notin> set key then ob\<lparr>cursor := keys, phase := GetIssued key\<rparr>
               else ob\<lparr>cursor := keys\<rparr>)
      | GetIssued key \<Rightarrow> ob\<lparr>phase := GetDone key (index_get (ix ob) key)\<rparr>
      | GetDone key r \<Rightarrow>
          (case r of
             Inl e \<Rightarrow> ob\<lparr>phase := ScanStuck\<rparr>
           | Inr v \<Rightarrow>
               ob\<lparr>ix := (ix ob)\<lparr>mapDataSources :=
                       (mapDataSources (ix ob))(result ob := (mapDataSources (ix ob) (result ob))(key \<mapsto> v))\<rparr>,
                  phase := AtCursor\<rparr>)
      | ScanResolved \<Rightarrow> ob
      | ScanStuck \<Rightarrow> ob)"

text \<open>
  A schedule: the next thing the program does is either the next step of the scan, or a
  call on the index, whose write the engine applies and whose event the handlers serve.
\<close>

datatype sched_step = Scan | Live index_op

fun schedStep :: "sched_step \<Rightarrow> observation \<Rightarrow> observation" where
  "schedStep Scan ob = scanStep ob"
| "schedStep (Live op) ob = ob\<lparr>ix := index_step op (ix ob)\<rparr>"

definition runSchedule :: "sched_step list \<Rightarrow> observation \<Rightarrow> observation" where
  "runSchedule steps ob = fold schedStep steps ob"

text \<open>
  The index of the test: \<open>hello0\<close> and \<open>hello1\<close> set to \<open>world\<close>, and a call of
  \<open>observeEntireIndex\<close> whose cursor has the three keys of the partition to yield.
\<close>

definition helloObservation :: observation where
  "helloObservation =
     beginObserveEntireIndex [META_KEY, ''hello0'', ''hello1'']
       (index_run [ISet ''hello0'' (JStr ''world''), ISet ''hello1'' (JStr ''world'')] testIndex)"

text \<open>
  Two schedules for that call, with \<open>hello0\<close> deleted and \<open>hello1\<close> overwritten
  while it runs. In the first the write of \<open>hello1\<close> is served between the engine's
  read of \<open>hello1\<close> and the resumption of the callback. In the second the deletion
  of \<open>hello0\<close> is served before the scan reads \<open>hello0\<close>.
\<close>

definition staleSchedule :: "sched_step list" where
  "staleSchedule =
     [Scan, Scan, Scan, Scan, Live (IDelete ''hello0''),
      Scan, Scan, Live (ISet ''hello1'' (JStr ''notworld'')), Scan, Scan]"

definition deleteFirstSchedule :: "sched_step list" where
  "deleteFirstSchedule =
     [Live (IDelete ''hello0''), Scan, Scan, Scan,
      Live (ISet ''hello1'' (JStr ''notworld'')), Scan, Scan]"

text \<open>
  A third schedule for that call: the token is cancelled before the first step of the
  scan (the cleanup takes the result, reference 0, out of \<open>totalObservers\<close>), then
  \<open>hello1\<close> is overwritten, then the scan runs to its end.
\<close>

definition cancelDuringScanSchedule :: "sched_step list" where
  "cancelDuringScanSchedule =
     [Live (ICancelEntireIndex 0), Live (ISet ''hello1'' (JStr ''notworld'')),
      Scan, Scan, Scan, Scan, Scan, Scan, Scan, Scan]"

section \<open>Calls on an ordered collection issued without awaiting\<close>

text \<open>
  The methods are \<open>async\<close>: a call runs up to its first \<open>await\<close> and returns; the
  rest runs later, one piece at a time. The program's side of the event loop is modelled
  as JavaScript runs it: continuations of settled promises wait in the microtask queue
  and run in order; when that queue is empty the program waits for the engine.

  The engine is outside the source. It holds the operations issued and not yet finished,
  and which of them it carries on with next is a parameter of the model, the schedule.
  A read, a write or a batch takes one turn of the engine. A clear takes two: on the
  first the engine fixes the keys it is going to delete, those the partition holds then;
  on the second it deletes them and reports. What the engine serves between the two
  turns sees the partition as it is.
\<close>

definition level_clear_keys :: "store \<Rightarrow> store \<Rightarrow> string \<Rightarrow> store" where
  "level_clear_keys snapshot s pre = (\<lambda>k. if prefix pre k \<and> snapshot k \<noteq> None then None else s k)"

definition oc_db_clear_keys :: "store \<Rightarrow> oc_state \<Rightarrow> oc_state" where
  "oc_db_clear_keys snapshot st =
     oc_onClear (st\<lparr>oc_store := level_clear_keys snapshot (oc_store st) (oc_db st)\<rparr>)"

text \<open>
  The calls, the engine operations (\<open>IOClearing\<close> is a clear after its first turn,
  with the store as it was then), what a method does when an engine operation it awaits
  finishes (\<open>io_cont\<close>), and what it does when a lock it awaits is settled
  (\<open>resumption\<close>). Calls are numbered; the lock promise that \<open>push\<close> or \<open>pop\<close>
  number \<open>c\<close> stores in \<open>this.lock\<close> is promise \<open>c\<close>.
\<close>

datatype call = CPush "jval list" | CPop | CSet int jval | CClear | CLength

datatype io_op =
    IOGet jkey
  | IOPut jkey jval
  | IOBatch "oc_batch_op list"
  | IOClear
  | IOClearing store

datatype io_cont =
    KPushLen nat "jval list"
  | KPopLen nat
  | KPopGot nat int
  | KSetLen nat int jval
  | KLength nat
  | KResolveLock nat jval
  | KSetDone nat
  | KClearAfter nat
  | KNone

datatype resumption =
    PushInstall nat "jval list"
  | PopInstall nat
  | SetLength nat int jval
  | ClearGo nat
  | LengthRead io_cont

text \<open>
  The state of the loop: the collection, the \<open>lock\<close> field (\<open>None\<close> for
  \<open>undefined\<close>), the lock promises resolved so far, the continuations waiting for a
  pending lock, the microtask queue, the operations the engine holds (in the order they
  were issued), and the calls settled so far with their results.
\<close>

record loop =
  coll :: oc_state
  lockField :: "nat option"
  resolvedLocks :: "nat list"
  waiters :: "(nat \<times> resumption) list"
  microtasks :: "resumption list"
  pending :: "(io_op \<times> io_cont) list"
  outcomes :: "(nat \<times> jval outcome) list"

text \<open>
  \<open>await this.lock\<close>: on \<open>undefined\<close> or a resolved promise the continuation joins
  the microtask queue; on a pending promise it waits for the promise.
\<close>

definition awaitLock :: "resumption \<Rightarrow> loop \<Rightarrow> loop" where
  "awaitLock t s =
     (case lockField s of
        None \<Rightarrow> s\<lparr>microtasks := microtasks s @ [t]\<rparr>
      | Some l \<Rightarrow>
          if l \<in> set (resolvedLocks s) then s\<lparr>microtasks := microtasks s @ [t]\<rparr>
          else s\<lparr>waiters := waiters s @ [(l, t)]\<rparr>)"

text \<open>The synchronous part of each call: everything up to \<open>await this.lock\<close>.\<close>

fun issue :: "nat \<times> call \<Rightarrow> loop \<Rightarrow> loop" where
  "issue (c, CPush items) s = awaitLock (PushInstall c items) s"
| "issue (c, CPop) s = awaitLock (PopInstall c) s"
| "issue (c, CSet index item) s = awaitLock (SetLength c index item) s"
| "issue (c, CClear) s = awaitLock (ClearGo c) s"
| "issue (c, CLength) s = awaitLock (LengthRead (KLength c)) s"

text \<open>
  After the lock. \<open>push\<close> and \<open>pop\<close> build their promise: the executor runs at
  once and calls \<open>length()\<close>, which awaits the lock that \<open>this.lock\<close> still holds;
  only then is the new promise stored in \<open>this.lock\<close>. \<open>set\<close> calls
  \<open>length()\<close>; \<open>clear\<close> issues the engine's clear; \<open>length\<close> issues the read
  of the metadata record.
\<close>

fun runTask :: "resumption \<Rightarrow> loop \<Rightarrow> loop" where
  "runTask (PushInstall c items) s = (awaitLock (LengthRead (KPushLen c items)) s)\<lparr>lockField := Some c\<rparr>"
| "runTask (PopInstall c) s = (awaitLock (LengthRead (KPopLen c)) s)\<lparr>lockField := Some c\<rparr>"
| "runTask (SetLength c index item) s = awaitLock (LengthRead (KSetLen c index item)) s"
| "runTask (ClearGo c) s = s\<lparr>pending := pending s @ [(IOClear, KClearAfter c)]\<rparr>"
| "runTask (LengthRead k) s = s\<lparr>pending := pending s @ [(IOGet (KStr META_KEY), k)]\<rparr>"

definition settleCall :: "nat \<Rightarrow> jval outcome \<Rightarrow> loop \<Rightarrow> loop" where
  "settleCall c r s = s\<lparr>outcomes := outcomes s @ [(c, r)]\<rparr>"

text \<open>
  After an engine operation. A rejection inside the executor of \<open>push\<close> or \<open>pop\<close>
  leaves its promise pending: the state does not change and nothing is issued.
  \<open>clear\<close> issues the write of the length and returns without awaiting it.
\<close>

fun runCont :: "io_cont \<Rightarrow> error + jval \<Rightarrow> loop \<Rightarrow> loop" where
  "runCont (KPushLen c items) r s =
     (case r of
        Inr (JNum len) \<Rightarrow>
          s\<lparr>coll := forTotalObservers (\<lambda>xs. xs @ items) (coll s),
            pending := pending s @
              [(IOBatch (pushOps len items @ [BPut (KStr META_KEY) (JNum (len + int (length items)))]),
                KResolveLock c JUndefined)]\<rparr>
      | Inr v \<Rightarrow> s
      | Inl e \<Rightarrow> s)"
| "runCont (KPopLen c) r s =
     (case r of
        Inr (JNum len) \<Rightarrow> s\<lparr>pending := pending s @ [(IOGet (KNum (len - 1)), KPopGot c len)]\<rparr>
      | Inr v \<Rightarrow> s
      | Inl e \<Rightarrow> s)"
| "runCont (KPopGot c len) r s =
     (case r of
        Inl e \<Rightarrow> s
      | Inr v \<Rightarrow>
          s\<lparr>coll := forTotalObservers butlast (coll s),
            pending := pending s @
              [(IOBatch [BPut (KStr META_KEY) (JNum (len - 1)), BDel (KNum (len - 1))],
                KResolveLock c v)]\<rparr>)"
| "runCont (KSetLen c index item) r s =
     (case r of
        Inl e \<Rightarrow> settleCall c (Rejected e) s
      | Inr (JNum len) \<Rightarrow>
          if index > len then settleCall c (Rejected CannotWriteOutsideBounds) s
          else s\<lparr>coll := forTotalObservers (ads_set index item) (coll s),
                 pending := pending s @ [(IOPut (KNum index) item, KSetDone c)]\<rparr>
      | Inr v \<Rightarrow> settleCall c (Rejected TypeError) s)"
| "runCont (KLength c) r s =
     (case r of
        Inl e \<Rightarrow> settleCall c (Rejected e) s
      | Inr (JNum len) \<Rightarrow> settleCall c (Resolved (JNum len)) s
      | Inr v \<Rightarrow> settleCall c (Rejected TypeError) s)"
| "runCont (KResolveLock c v) r s =
     settleCall c (Resolved v)
       (s\<lparr>resolvedLocks := resolvedLocks s @ [c],
          microtasks := microtasks s @ map snd (filter (\<lambda>(l, t). l = c) (waiters s)),
          waiters := filter (\<lambda>(l, t). l \<noteq> c) (waiters s)\<rparr>)"
| "runCont (KSetDone c) r s = settleCall c (Resolved JUndefined) s"
| "runCont (KClearAfter c) r s =
     settleCall c (Resolved JUndefined)
       (s\<lparr>coll := forTotalObservers (\<lambda>xs. []) (coll s),
          pending := pending s @ [(IOPut (KStr META_KEY) (JNum 0), KNone)]\<rparr>)"
| "runCont KNone r s = s"

text \<open>
  One turn of the engine on the operation at position \<open>n\<close> of those it holds. A clear
  on its first turn stays where it is, with the store of that moment; any other
  operation is applied to the store, leaves the list, and its callback runs.
\<close>

definition leave :: "nat \<Rightarrow> loop \<Rightarrow> loop" where
  "leave n s = s\<lparr>pending := take n (pending s) @ drop (Suc n) (pending s)\<rparr>"

fun turn :: "nat \<Rightarrow> io_op \<Rightarrow> io_cont \<Rightarrow> loop \<Rightarrow> loop" where
  "turn n (IOGet k) kont s = runCont kont (oc_db_get (coll s) k) (leave n s)"
| "turn n (IOPut k v) kont s =
     runCont kont (Inr JUndefined) ((leave n s)\<lparr>coll := oc_db_put k v (coll s)\<rparr>)"
| "turn n (IOBatch ops) kont s =
     runCont kont (Inr JUndefined) ((leave n s)\<lparr>coll := batch_write ops (coll s)\<rparr>)"
| "turn n IOClear kont s =
     s\<lparr>pending := (pending s)[n := (IOClearing (oc_store (coll s)), kont)]\<rparr>"
| "turn n (IOClearing snapshot) kont s =
     runCont kont (Inr JUndefined) ((leave n s)\<lparr>coll := oc_db_clear_keys snapshot (coll s)\<rparr>)"

definition serve :: "nat \<Rightarrow> loop \<Rightarrow> loop" where
  "serve n s = (case pending s ! n of (op, kont) \<Rightarrow> turn n op kont s)"

text \<open>
  The schedule is the list of the positions the engine picks, turn after turn; a
  position past the end of the list, and every turn once the schedule is used up, is the
  operation issued first.
\<close>

definition choice :: "nat list \<Rightarrow> nat \<Rightarrow> nat" where
  "choice schedule n = (case schedule of [] \<Rightarrow> 0 | c # cs \<Rightarrow> if c < n then c else 0)"

text \<open>
  The loop, with fuel: \<open>Some\<close> when no continuation and no engine operation is left,
  \<open>None\<close> when the fuel runs out first.
\<close>

fun runLoop :: "nat \<Rightarrow> nat list \<Rightarrow> loop \<Rightarrow> loop option" where
  "runLoop 0 schedule s = (if microtasks s = [] \<and> pending s = [] then Some s else None)"
| "runLoop (Suc n) schedule s =
     (case microtasks s of
        t # ts \<Rightarrow> runLoop n schedule (runTask t (s\<lparr>microtasks := ts\<rparr>))
      | [] \<Rightarrow>
          if pending s = [] then Some s
          else runLoop n (tl schedule) (serve (choice schedule (length (pending s))) s))"

definition startLoop :: "oc_state \<Rightarrow> loop" where
  "startLoop st =
     \<lparr>coll = st, lockField = None, resolvedLocks = [], waiters = [], microtasks = [],
      pending = [], outcomes = []\<rparr>"

definition unawaited :: "call list \<Rightarrow> oc_state \<Rightarrow> nat list \<Rightarrow> nat \<Rightarrow> loop option" where
  "unawaited calls st schedule fuel =
     runLoop fuel schedule (fold issue (enumerate 0 calls) (startLoop st))"

text \<open>
  When the loop has stopped, a lock that is still pending stays pending: the collection
  as the next awaited call finds it.
\<close>

definition settled :: "loop \<Rightarrow> oc_state" where
  "settled s =
     (coll s)\<lparr>lock := (case lockField s of
                          None \<Rightarrow> LockUndefined
                        | Some l \<Rightarrow> if l \<in> set (resolvedLocks s) then LockResolved else LockNeverSettles)\<rparr>"

text \<open>
  The schedule for \<open>clear()\<close> and \<open>push(1)\<close> issued together on the fresh collection:
  the engine starts the clear, then serves the read of the length that \<open>push\<close> has
  issued, then goes on in issue order (the clear's deletion, the batch of \<open>push\<close>, the
  write of the length that \<open>clear\<close> issues last).
\<close>

definition readBeforeClearSchedule :: "nat list" where
  "readBeforeClearSchedule = [0, 1]"

section \<open>Properties of the namespace manager\<close>

lemma meta_keys_differ:
  "makeSubDbId (n @ ''index'') META_KEY \<noteq> makeSubDbId (n @ ''ordered'') META_KEY"
  "makeSubDbId (n @ ''index'') META_KEY \<noteq> makeSubDbId (n @ ''linked'') META_KEY"
  "makeSubDbId (n @ ''ordered'') META_KEY \<noteq> makeSubDbId (n @ ''linked'') META_KEY"
  by (simp_all add: makeSubDbId_def)

lemma has_put:
  "has (d\<lparr>store := level_put (store d) (db d @ k) v\<rparr>) k' = (k' = k \<or> has d k')"
  by (simp add: has_def level_get_def level_put_def split: option.splits)

lemma emptyDb_has_nothing:
  "\<not> hasIndex emptyDb n" "\<not> hasOrderedCollection emptyDb n" "\<not> hasLinkedCollection emptyDb n"
  by (simp_all add: emptyDb_def hasIndex_def hasOrderedCollection_def hasLinkedCollection_def
      has_def level_get_def)

text \<open>
  C8. A name under which no collection exists yet can be used to create a collection of
  each kind, and right after creating one kind under it the existence check of that kind
  is true on the database while the checks of the other two kinds are false: the three
  metadata records of a name are three different keys.
\<close>

theorem existence_exclusivity:
  assumes "\<not> hasIndex d n" and "\<not> hasOrderedCollection d n" and "\<not> hasLinkedCollection d n"
  shows "(\<exists>st. createIndex d n now = Inr st
            \<and> hasIndex (d\<lparr>store := store st\<rparr>) n
            \<and> \<not> hasOrderedCollection (d\<lparr>store := store st\<rparr>) n
            \<and> \<not> hasLinkedCollection (d\<lparr>store := store st\<rparr>) n)
       \<and> (\<exists>st. createOrderedCollection d n = Inr st
            \<and> hasOrderedCollection (d\<lparr>store := oc_store st\<rparr>) n
            \<and> \<not> hasIndex (d\<lparr>store := oc_store st\<rparr>) n
            \<and> \<not> hasLinkedCollection (d\<lparr>store := oc_store st\<rparr>) n)
       \<and> (\<exists>st. createLinkedCollection d n = Inr st
            \<and> hasLinkedCollection (d\<lparr>store := linked_store st\<rparr>) n
            \<and> \<not> hasIndex (d\<lparr>store := linked_store st\<rparr>) n
            \<and> \<not> hasOrderedCollection (d\<lparr>store := linked_store st\<rparr>) n)"
  using assms meta_keys_differ[of n] meta_keys_differ[of n, symmetric]
  by (simp add: createIndex_def createOrderedCollection_def createLinkedCollection_def
      newIndex_def newOrderedCollection_def hasIndex_def hasOrderedCollection_def
      hasLinkedCollection_def has_put Let_def)

theorem existence_exclusivity_witness:
  "\<not> hasIndex emptyDb ''test'' \<and> \<not> hasOrderedCollection emptyDb ''test''
   \<and> \<not> hasLinkedCollection emptyDb ''test''
   \<and> (\<exists>st. createOrderedCollection emptyDb ''test'' = Inr st
            \<and> hasOrderedCollection (emptyDb\<lparr>store := oc_store st\<rparr>) ''test''
            \<and> \<not> hasIndex (emptyDb\<lparr>store := oc_store st\<rparr>) ''test''
            \<and> \<not> hasLinkedCollection (emptyDb\<lparr>store := oc_store st\<rparr>) ''test'')"
proof -
  have h: "\<not> hasIndex emptyDb ''test''" "\<not> hasOrderedCollection emptyDb ''test''"
    "\<not> hasLinkedCollection emptyDb ''test''"
    by (rule emptyDb_has_nothing)+
  from existence_exclusivity[OF h] h show ?thesis by blast
qed

section \<open>Properties of the index\<close>

lemma onKeyChange_frame [simp]:
  "store (onKeyChange k v st) = store st"
  "db (onKeyChange k v st) = db st"
  "autoDeleteOnSetUndefined (onKeyChange k v st) = autoDeleteOnSetUndefined st"
  "totalObservers (onKeyChange k v st) = totalObservers st"
  "keyObservers (onKeyChange k v st) = keyObservers st"
  "nextRef (onKeyChange k v st) = nextRef st"
  by (simp_all add: onKeyChange_def)

lemma onClear_frame [simp]:
  "store (onClear st) = store st"
  "db (onClear st) = db st"
  "autoDeleteOnSetUndefined (onClear st) = autoDeleteOnSetUndefined st"
  "totalObservers (onClear st) = totalObservers st"
  "keyObservers (onClear st) = keyObservers st"
  "nextRef (onClear st) = nextRef st"
  by (simp_all add: onClear_def)

lemma index_set_db [simp]: "db (index_set k v st) = db st"
  by (simp add: index_set_def db_put_def db_del_def)

lemma index_set_store_other:
  "k' \<noteq> k \<Longrightarrow> store (index_set k v st) (db st @ k') = store st (db st @ k')"
  by (simp add: index_set_def db_put_def db_del_def level_put_def level_del_def)

lemma sets_keep_meta:
  "\<forall>(k, v) \<in> set kvs. k \<noteq> META_KEY \<Longrightarrow>
   db (fold (\<lambda>(k, v). index_set k v) kvs st) = db st
   \<and> store (fold (\<lambda>(k, v). index_set k v) kvs st) (db st @ META_KEY) = store st (db st @ META_KEY)"
proof (induction kvs arbitrary: st)
  case Nil
  then show ?case by simp
next
  case (Cons kv kvs)
  obtain k v where kv: "kv = (k, v)" by (cases kv)
  from Cons.prems kv have k: "k \<noteq> META_KEY" and rest: "\<forall>(k, v) \<in> set kvs. k \<noteq> META_KEY"
    by auto
  from Cons.IH[OF rest, of "index_set k v st"] k kv show ?case
    by (simp add: index_set_store_other)
qed

lemma index_clear_result:
  assumes "store st (db st @ META_KEY) = Some (JStr t)"
  shows "\<exists>st'. index_clear st = Inr st' \<and> db st' = db st
          \<and> store st' = (level_clear (store st) (db st))(db st @ META_KEY \<mapsto> JStr t)"
  using assms
  by (simp add: index_clear_def index_get_def level_get_def index_set_def db_put_def
      db_clear_def level_put_def)

lemma createIndex_result:
  assumes "createIndex d name now = Inr st0"
  shows "db st0 = db d @ makeSubDbId (name @ ''index'') []"
    and "store st0 (db d @ makeSubDbId (name @ ''index'') META_KEY) = Some (JStr now)"
  using assms
  by (auto simp add: createIndex_def newIndex_def Let_def sub_def makeSubDbId_def level_put_def
      split: if_splits)

text \<open>
  C5. After \<open>createIndex(name)\<close> and any number of \<open>set\<close> calls on local keys
  (keys other than the reserved metadata key), \<open>clear()\<close> succeeds; afterwards
  \<open>hasIndex(name)\<close> is still true on the database, \<open>get\<close> fails with
  \<open>NotFound\<close> on every key that was set, and indeed on every key of the partition
  other than the metadata key.
\<close>

theorem clear_preserves_existence:
  assumes "createIndex d name now = Inr st0"
    and "\<forall>(k, v) \<in> set kvs. k \<noteq> META_KEY"
  shows "\<exists>st'. index_clear (fold (\<lambda>(k, v). index_set k v) kvs st0) = Inr st'
           \<and> hasIndex (d\<lparr>store := store st'\<rparr>) name
           \<and> (\<forall>(k, v) \<in> set kvs. index_get st' k = Inl NotFound)
           \<and> (\<forall>k. k \<noteq> META_KEY \<longrightarrow> index_get st' k = Inl NotFound)"
proof -
  let ?st1 = "fold (\<lambda>(k, v). index_set k v) kvs st0"
  have pre: "db st0 @ META_KEY = db d @ makeSubDbId (name @ ''index'') META_KEY"
    using createIndex_result(1)[OF assms(1)] by (simp add: makeSubDbId_def)
  have db1: "db ?st1 = db st0"
    and meta1: "store ?st1 (db st0 @ META_KEY) = Some (JStr now)"
    using sets_keep_meta[OF assms(2), of st0] createIndex_result(2)[OF assms(1)] pre by simp_all
  from index_clear_result[of ?st1 now] db1 meta1
  obtain st' where c: "index_clear ?st1 = Inr st'" and d': "db st' = db st0"
    and s': "store st' = (level_clear (store ?st1) (db st0))(db st0 @ META_KEY \<mapsto> JStr now)"
    by auto
  have ex: "hasIndex (d\<lparr>store := store st'\<rparr>) name"
    using s' pre by (simp add: hasIndex_def has_def level_get_def)
  have gone: "index_get st' k = Inl NotFound" if "k \<noteq> META_KEY" for k
    using that d' s' by (simp add: index_get_def level_get_def level_clear_def)
  from c ex gone assms(2) show ?thesis by auto
qed

theorem clear_preserves_existence_witness:
  "\<exists>st0. createIndex emptyDb ''t'' ''2020'' = Inr st0
     \<and> (\<forall>(k, v) \<in> set [(''hello'', JStr ''world''), (''n'', JNum 1)]. k \<noteq> META_KEY)
     \<and> (\<exists>st'. index_clear (fold (\<lambda>(k, v). index_set k v) [(''hello'', JStr ''world''), (''n'', JNum 1)] st0) = Inr st'
           \<and> hasIndex (emptyDb\<lparr>store := store st'\<rparr>) ''t''
           \<and> index_get st' ''hello'' = Inl NotFound)"
proof -
  obtain st0 where c: "createIndex emptyDb ''t'' ''2020'' = Inr st0"
    by (simp add: createIndex_def emptyDb_has_nothing Let_def)
  have k: "\<forall>(k, v) \<in> set [(''hello'', JStr ''world''), (''n'', JNum 1)]. k \<noteq> META_KEY"
    by (simp add: META_KEY_def)
  from clear_preserves_existence[OF c k] c k show ?thesis by auto
qed

lemma scan_filters_delimiter:
  "scan r keys st = (out, st') \<Longrightarrow> k \<in> dom (mapDataSources st' r) \<Longrightarrow>
   k \<in> dom (mapDataSources st r) \<or> (k \<in> set keys \<and> CHR ''!'' \<notin> set k)"
proof (induction r keys st rule: scan.induct)
  case (1 result st)
  then show ?case by simp
next
  case (2 result key keys st)
  show ?case
  proof (cases "CHR ''!'' \<notin> set key")
    case True
    show ?thesis
    proof (cases "index_get st key")
      case (Inl e)
      with True "2.prems" show ?thesis by simp
    next
      case (Inr v)
      with True "2.prems" "2.IH"(1)[OF True Inr] show ?thesis
        by (auto split: if_splits)
    qed
  next
    case False
    with "2.prems" "2.IH"(2) show ?thesis by auto
  qed
qed

text \<open>
  C6. The bootstrap scan keeps keys with the delimiter out of the view
  (\<open>scan_filters_delimiter\<close>), but the live handler \<open>onKeyChange\<close> sets
  whatever key the event carries. On a fresh index with a whole-index observer,
  \<open>clear()\<close> rewrites the metadata record, and the put event of that write leaves the
  key \<open>!!meta!!\<close> in the observed view.
\<close>

theorem live_event_surfaces_metadata_key:
  "\<exists>st0 r st1 st2.
     createIndex emptyDb ''t'' ''2020'' = Inr st0
     \<and> observeEntireIndex [META_KEY] st0 = (Resolved r, st1)
     \<and> mapDataSources st1 r = Map.empty
     \<and> index_clear st1 = Inr st2
     \<and> mapDataSources st2 r META_KEY = Some (JStr ''2020'')
     \<and> CHR ''!'' \<in> set META_KEY"
  by (simp add: createIndex_def hasIndex_def has_def Let_def newIndex_def observeEntireIndex_def
      META_KEY_def index_clear_def index_get_def level_get_def level_put_def emptyDb_def
      makeSubDbId_def sub_def index_set_def db_put_def db_clear_def onClear_def onKeyChange_def
      level_clear_def)

section \<open>Properties of the ordered collection\<close>

lemma digit_inj: "a < 10 \<Longrightarrow> b < 10 \<Longrightarrow> digit a = digit b \<Longrightarrow> a = b"
  by (simp add: digit_def)

lemma digit_not_delimiter: "a < 10 \<Longrightarrow> digit a \<noteq> CHR ''!''" "a < 10 \<Longrightarrow> digit a \<noteq> CHR ''-''"
  by (simp_all add: digit_def char_of_eq_iff take_bit_eq_mod)

lemma showNat_nonempty: "showNat n \<noteq> []"
  by (subst showNat.simps) simp

lemma showNat_chars: "c \<in> set (showNat n) \<Longrightarrow> c \<noteq> CHR ''!'' \<and> c \<noteq> CHR ''-''"
proof (induction n rule: showNat.induct)
  case (1 n)
  show ?case
  proof (cases "n < 10")
    case True
    with "1.prems" digit_not_delimiter[of n] show ?thesis
      by (subst (asm) showNat.simps) auto
  next
    case False
    from "1.prems" have "c \<in> set (showNat (n div 10)) \<or> c = digit (n mod 10)"
      using False by (subst (asm) showNat.simps) auto
    with "1.IH"[OF False] digit_not_delimiter[of "n mod 10"] show ?thesis by auto
  qed
qed

lemma showNat_inj: "showNat n = showNat m \<Longrightarrow> n = m"
proof (induction n arbitrary: m rule: showNat.induct)
  case (1 n)
  show ?case
  proof (cases "n < 10")
    case n: True
    show ?thesis
    proof (cases "m < 10")
      case True
      with n "1.prems" digit_inj[of n m] show ?thesis
        by (subst (asm) (2) showNat.simps, subst (asm) showNat.simps) simp
    next
      case False
      with n "1.prems" showNat_nonempty[of "m div 10"] show ?thesis
        by (subst (asm) (2) showNat.simps, subst (asm) showNat.simps) simp
    qed
  next
    case n: False
    show ?thesis
    proof (cases "m < 10")
      case True
      with n "1.prems" showNat_nonempty[of "n div 10"] show ?thesis
        by (subst (asm) (2) showNat.simps, subst (asm) showNat.simps) simp
    next
      case False
      with n "1.prems" have "showNat (n div 10) = showNat (m div 10)"
        and d: "digit (n mod 10) = digit (m mod 10)"
        by (subst (asm) (2) showNat.simps, subst (asm) showNat.simps, simp)+
      with "1.IH"[OF n] have "n div 10 = m div 10" by simp
      moreover from d digit_inj[of "n mod 10" "m mod 10"] have "n mod 10 = m mod 10" by simp
      ultimately show ?thesis by (metis div_mult_mod_eq)
    qed
  qed
qed

lemma toString_inj: "toString i = toString j \<Longrightarrow> i = j"
proof -
  assume e: "toString i = toString j"
  have neg: "hd (showNat n) \<noteq> CHR ''-''" for n
    using showNat_chars[of "hd (showNat n)" n] showNat_nonempty[of n] by simp
  show ?thesis
  proof (cases "i < 0")
    case i: True
    show ?thesis
    proof (cases "j < 0")
      case True
      with i e showNat_inj[of "nat (- i)" "nat (- j)"] show ?thesis by (simp add: toString_def)
    next
      case False
      with i e have "showNat (nat j) = CHR ''-'' # showNat (nat (- i))"
        by (simp add: toString_def)
      then have "hd (showNat (nat j)) = CHR ''-''" by simp
      with neg[of "nat j"] show ?thesis by simp
    qed
  next
    case i: False
    show ?thesis
    proof (cases "j < 0")
      case True
      with i e have "showNat (nat i) = CHR ''-'' # showNat (nat (- j))"
        by (simp add: toString_def)
      then have "hd (showNat (nat i)) = CHR ''-''" by simp
      with neg[of "nat i"] show ?thesis by simp
    next
      case False
      with i e showNat_inj[of "nat i" "nat j"] show ?thesis by (simp add: toString_def)
    qed
  qed
qed

lemma toString_not_meta: "toString i \<noteq> META_KEY"
proof
  assume e: "toString i = META_KEY"
  have "CHR ''!'' \<notin> set (showNat n)" for n using showNat_chars[of "CHR ''!''" n] by auto
  then have "CHR ''!'' \<notin> set (toString i)" by (simp add: toString_def)
  with e show False by (simp add: META_KEY_def)
qed

lemma holds_length: "holds st xs \<Longrightarrow> oc_length st = Resolved (int (length xs))"
  by (simp add: holds_def oc_length_def)

lemma holds_slot: "holds st xs \<Longrightarrow> i < length xs \<Longrightarrow> oc_db_get st (KNum (int i)) = Inr (xs ! i)"
  by (simp add: holds_def list_all_iff)

lemma readLoop_holds:
  "holds st xs \<Longrightarrow> 0 \<le> i \<Longrightarrow> e \<le> int (length xs) \<Longrightarrow>
   readLoop st i e acc = Resolved (acc @ map ((!) xs) [nat i..<nat e])"
proof (induction st i e acc rule: readLoop.induct)
  case (1 st i endIndex items)
  show ?case
  proof (cases "i < endIndex")
    case True
    with "1.prems" have lt: "nat i < length xs" by linarith
    with "1.prems" holds_slot[of st xs "nat i"] have g: "oc_db_get st (KNum i) = Inr (xs ! nat i)"
      by simp
    have "readLoop st i endIndex items = readLoop st (i + 1) endIndex (items @ [xs ! nat i])"
      using True g by (subst readLoop.simps) simp
    also have "\<dots> = Resolved ((items @ [xs ! nat i]) @ map ((!) xs) [nat (i + 1)..<nat endIndex])"
      using "1.IH"[OF True g] "1.prems" by simp
    also have "[nat i..<nat endIndex] = nat i # [nat (i + 1)..<nat endIndex]"
      using True "1.prems" by (simp add: upt_conv_Cons nat_add_distrib)
    then have "(items @ [xs ! nat i]) @ map ((!) xs) [nat (i + 1)..<nat endIndex]
               = items @ map ((!) xs) [nat i..<nat endIndex]" by simp
    finally show ?thesis .
  next
    case False
    then show ?thesis by (subst readLoop.simps) simp
  qed
qed

text \<open>
  C9. On a collection that holds the list \<open>xs\<close>, \<open>slice(a, b)\<close> is rejected with
  the out-of-bounds error exactly when \<open>a < 0\<close> or \<open>b > length\<close> or
  \<open>a > length\<close> or \<open>b < 0\<close>, and otherwise resolves to the elements of \<open>xs\<close>
  at the indices \<open>a, ..., b - 1\<close> in that order (none when \<open>b \<le> a\<close>).
\<close>

theorem slice_bounds:
  assumes "holds st xs"
  shows "oc_slice a b st =
     (if a < 0 \<or> b > int (length xs) \<or> a > int (length xs) \<or> b < 0
      then Rejected CannotWriteOutsideBounds
      else Resolved (map ((!) xs) [nat a..<nat b]))"
  using assms readLoop_holds[OF assms, of a b "[]"]
  by (auto simp add: oc_slice_def holds_length)

theorem slice_bounds_witness:
  "holds (pushedOnTest [JNum 1, JNum 2, JNum 3, JNum 4, JNum 5]) [JNum 1, JNum 2, JNum 3, JNum 4, JNum 5]
   \<and> oc_slice 0 2 (pushedOnTest [JNum 1, JNum 2, JNum 3, JNum 4, JNum 5]) = Resolved [JNum 1, JNum 2]
   \<and> oc_slice 1 6 (pushedOnTest [JNum 1, JNum 2, JNum 3, JNum 4, JNum 5]) = Rejected CannotWriteOutsideBounds"
proof -
  have h: "holds (pushedOnTest [JNum 1, JNum 2, JNum 3, JNum 4, JNum 5]) [JNum 1, JNum 2, JNum 3, JNum 4, JNum 5]"
    by code_simp
  have u: "[nat 0..<nat 2] = [0, 1]" by (simp add: upt_rec)
  from slice_bounds[OF h, of 0 2] slice_bounds[OF h, of 1 6] h u show ?thesis by simp
qed

lemma oc_onKeyChange_frame [simp]:
  "oc_store (oc_onKeyChange k v st) = oc_store st"
  "oc_db (oc_onKeyChange k v st) = oc_db st"
  "lock (oc_onKeyChange k v st) = lock st"
  "oc_totalObservers (oc_onKeyChange k v st) = oc_totalObservers st"
  "oc_keyObservers (oc_onKeyChange k v st) = oc_keyObservers st"
  "arrayDataSources (oc_onKeyChange k v st) = arrayDataSources st"
  "oc_nextRef (oc_onKeyChange k v st) = oc_nextRef st"
  by (cases k; simp split: option.splits)+

lemma oc_onBatchOp_frame [simp]:
  "oc_store (oc_onBatchOp b st) = oc_store st"
  "oc_db (oc_onBatchOp b st) = oc_db st"
  "lock (oc_onBatchOp b st) = lock st"
  "oc_totalObservers (oc_onBatchOp b st) = oc_totalObservers st"
  "oc_keyObservers (oc_onBatchOp b st) = oc_keyObservers st"
  "arrayDataSources (oc_onBatchOp b st) = arrayDataSources st"
  "oc_nextRef (oc_onBatchOp b st) = oc_nextRef st"
  by (cases b; simp)+

lemma fold_oc_onBatchOp_frame [simp]:
  "oc_store (fold oc_onBatchOp ops st) = oc_store st"
  "oc_db (fold oc_onBatchOp ops st) = oc_db st"
  "lock (fold oc_onBatchOp ops st) = lock st"
  "oc_totalObservers (fold oc_onBatchOp ops st) = oc_totalObservers st"
  "oc_keyObservers (fold oc_onBatchOp ops st) = oc_keyObservers st"
  "arrayDataSources (fold oc_onBatchOp ops st) = arrayDataSources st"
  "oc_nextRef (fold oc_onBatchOp ops st) = oc_nextRef st"
  by (induction ops arbitrary: st; simp)+

lemma forTotalObservers_frame [simp]:
  "oc_store (forTotalObservers f st) = oc_store st"
  "oc_db (forTotalObservers f st) = oc_db st"
  "lock (forTotalObservers f st) = lock st"
  "oc_totalObservers (forTotalObservers f st) = oc_totalObservers st"
  "oc_keyObservers (forTotalObservers f st) = oc_keyObservers st"
  "oc_dataSources (forTotalObservers f st) = oc_dataSources st"
  "oc_nextRef (forTotalObservers f st) = oc_nextRef st"
  by (simp_all add: forTotalObservers_def)

lemma batch_write_store [simp]:
  "oc_store (batch_write ops st) = fold (applyBatchOp (oc_db st)) ops (oc_store st)"
  "oc_db (batch_write ops st) = oc_db st"
  "lock (batch_write ops st) = lock st"
  by (simp_all add: batch_write_def)

lemma get_in_bounds:
  "holds st xs \<Longrightarrow> i < length xs \<Longrightarrow> oc_get (int i) st = Resolved (xs ! i)"
  by (simp add: oc_get_def holds_length holds_slot)

lemma get_above_length:
  "holds st xs \<Longrightarrow> int (length xs) < i \<Longrightarrow> oc_get i st = Rejected CannotReadOutsideBounds"
  by (simp add: oc_get_def holds_length)

lemma set_above_length:
  "holds st xs \<Longrightarrow> int (length xs) < i \<Longrightarrow> oc_set i v st = (Rejected CannotWriteOutsideBounds, st)"
  by (simp add: oc_set_def holds_length)

lemma holdsI:
  assumes "lock st \<noteq> LockNeverSettles"
    and "oc_store st (oc_db st @ META_KEY) = Some (JNum (int (length xs)))"
    and "\<And>i. i < length xs \<Longrightarrow> oc_store st (oc_db st @ toString (int i)) = Some (xs ! i)"
  shows "holds st xs"
  using assms by (simp add: holds_def oc_db_get_def level_get_def list_all_iff)

lemma holdsD:
  assumes "holds st xs"
  shows "lock st \<noteq> LockNeverSettles"
    and "oc_store st (oc_db st @ META_KEY) = Some (JNum (int (length xs)))"
    and "\<And>i. i < length xs \<Longrightarrow> oc_store st (oc_db st @ toString (int i)) = Some (xs ! i)"
  using assms by (auto simp add: holds_def oc_db_get_def level_get_def list_all_iff split: option.splits)

lemma set_in_bounds:
  assumes "holds st xs" and "i < length xs"
  shows "\<exists>st'. oc_set (int i) v st = (Resolved (), st') \<and> holds st' (xs[i := v])"
proof -
  let ?st' = "oc_db_put (KNum (int i)) v (forTotalObservers (ads_set (int i) v) st)"
  have r: "oc_set (int i) v st = (Resolved (), ?st')"
    using assms by (simp add: oc_set_def holds_length)
  have "holds ?st' (xs[i := v])"
  proof (rule holdsI)
    show "lock ?st' \<noteq> LockNeverSettles" using holdsD(1)[OF assms(1)] by (simp add: oc_db_put_def)
    show "oc_store ?st' (oc_db ?st' @ META_KEY) = Some (JNum (int (length (xs[i := v]))))"
      using holdsD(2)[OF assms(1)] toString_not_meta[of "int i"]
      by (auto simp add: oc_db_put_def level_put_def)
    show "oc_store ?st' (oc_db ?st' @ toString (int j)) = Some (xs[i := v] ! j)"
      if "j < length (xs[i := v])" for j
      using that holdsD(3)[OF assms(1), of j] toString_inj[of "int j" "int i"] assms(2)
      by (auto simp add: oc_db_put_def level_put_def nth_list_update)
  qed
  with r show ?thesis by blast
qed

lemma pop_snoc:
  assumes "holds st (ys @ [y])"
  shows "\<exists>st'. oc_pop st = (Resolved y, st') \<and> holds st' ys
           \<and> oc_db_get st' (KNum (int (length ys))) = Inl NotFound
           \<and> oc_store st' = fold (applyBatchOp (oc_db st))
                [BPut (KStr META_KEY) (JNum (int (length ys))), BDel (KNum (int (length ys)))]
                (oc_store st)"
proof -
  let ?ops = "[BPut (KStr META_KEY) (JNum (int (length ys))), BDel (KNum (int (length ys)))]"
  let ?st' = "(batch_write ?ops (forTotalObservers butlast st))\<lparr>lock := LockResolved\<rparr>"
  have len: "oc_length st = Resolved (int (length ys) + 1)"
    using holds_length[OF assms] by simp
  have lastv: "oc_db_get st (KNum (int (length ys))) = Inr y"
    using holds_slot[OF assms, of "length ys"] by simp
  have r: "oc_pop st = (Resolved y, ?st')"
    using holdsD(1)[OF assms] lastv by (simp add: oc_pop_def len Let_def)
  have h: "holds ?st' ys"
  proof (rule holdsI)
    show "lock ?st' \<noteq> LockNeverSettles" by simp
    show "oc_store ?st' (oc_db ?st' @ META_KEY) = Some (JNum (int (length ys)))"
      using toString_not_meta[of "int (length ys)"]
      by (auto simp add: level_put_def level_del_def)
    show "oc_store ?st' (oc_db ?st' @ toString (int j)) = Some (ys ! j)"
      if "j < length ys" for j
    proof -
      from that have ne: "toString (int j) \<noteq> toString (int (length ys))"
        using toString_inj[of "int j" "int (length ys)"] by auto
      from that holdsD(3)[OF assms, of j] have "oc_store st (oc_db st @ toString (int j)) = Some (ys ! j)"
        by (simp add: nth_append)
      with ne toString_not_meta[of "int j"] show ?thesis
        by (simp add: level_put_def level_del_def)
    qed
  qed
  have g: "oc_db_get ?st' (KNum (int (length ys))) = Inl NotFound"
    by (simp add: oc_db_get_def level_get_def level_del_def)
  from r h g show ?thesis by (intro exI[of _ ?st']) simp
qed

lemma pop_pending_keeps_store:
  "fst (oc_pop st) = Pending \<Longrightarrow> oc_store (snd (oc_pop st)) = oc_store st"
  by (auto simp add: oc_pop_def Let_def split: if_splits outcome.splits sum.splits)

text \<open>
  \<open>push\<close> of numbers appends: the new slots and the new length are one batch.
\<close>

lemma pushOps_Cons_fold:
  "fold (applyBatchOp h) (pushOps k (item # items)) s
   = fold (applyBatchOp h) (pushOps (k + 1) items) (level_put s (h @ toString k) item)"
  by simp

lemma pushOps_other:
  "(\<And>i. i < length items \<Longrightarrow> key \<noteq> toString (k + int i)) \<Longrightarrow>
   fold (applyBatchOp h) (pushOps k items) s (h @ key) = s (h @ key)"
proof (induction items arbitrary: k s)
  case Nil
  then show ?case by simp
next
  case (Cons item items)
  have k0: "key \<noteq> toString k" using Cons.prems[of 0] by simp
  have rest: "key \<noteq> toString (k + 1 + int i)" if "i < length items" for i
    using Cons.prems[of "Suc i"] that by (simp add: add.assoc)
  have "fold (applyBatchOp h) (pushOps k (item # items)) s (h @ key)
        = fold (applyBatchOp h) (pushOps (k + 1) items) (level_put s (h @ toString k) item) (h @ key)"
    by (simp only: pushOps_Cons_fold)
  also have "\<dots> = level_put s (h @ toString k) item (h @ key)"
    by (rule Cons.IH[OF rest])
  also have "\<dots> = s (h @ key)" using k0 by (simp add: level_put_def)
  finally show ?case .
qed

lemma pushOps_slot:
  "i < length items \<Longrightarrow>
   fold (applyBatchOp h) (pushOps k items) s (h @ toString (k + int i)) = Some (items ! i)"
proof (induction items arbitrary: k s i)
  case Nil
  then show ?case by simp
next
  case (Cons item items)
  show ?case
  proof (cases i)
    case 0
    have "toString k \<noteq> toString (k + 1 + int j)" for j
      using toString_inj[of k "k + 1 + int j"] by auto
    from pushOps_other[of items "toString k" "k + 1" h "level_put s (h @ toString k) item", OF this]
    have "fold (applyBatchOp h) (pushOps (k + 1) items) (level_put s (h @ toString k) item)
            (h @ toString k) = Some item"
      by (simp add: level_put_def)
    with 0 show ?thesis by (simp only: pushOps_Cons_fold) simp
  next
    case (Suc j)
    with Cons.prems have j: "j < length items" by simp
    have e: "k + int i = k + 1 + int j" using Suc by simp
    have "fold (applyBatchOp h) (pushOps k (item # items)) s (h @ toString (k + int i))
          = fold (applyBatchOp h) (pushOps (k + 1) items) (level_put s (h @ toString k) item)
              (h @ toString (k + 1 + int j))"
      by (simp only: pushOps_Cons_fold e)
    also have "\<dots> = Some (items ! j)" by (rule Cons.IH[OF j])
    finally show ?thesis using Suc by simp
  qed
qed

lemma push_holds:
  assumes "holds st xs" and "list_all (\<lambda>item. \<exists>n. item = JNum n) items"
  shows "\<exists>st'. oc_push items st = (Resolved (), st') \<and> holds st' (xs @ items)"
proof -
  let ?len = "int (length xs)"
  let ?ops = "pushOps ?len items @ [BPut (KStr META_KEY) (JNum (?len + int (length items)))]"
  let ?st' = "(batch_write ?ops (forTotalObservers (\<lambda>ys. ys @ items) st))\<lparr>lock := LockResolved\<rparr>"
  have r: "oc_push items st = (Resolved (), ?st')"
    using holdsD(1)[OF assms(1)] by (simp add: oc_push_def holds_length[OF assms(1)] Let_def)
  have "holds ?st' (xs @ items)"
  proof (rule holdsI)
    show "lock ?st' \<noteq> LockNeverSettles" by simp
    show "oc_store ?st' (oc_db ?st' @ META_KEY) = Some (JNum (int (length (xs @ items))))"
      by (simp add: level_put_def)
    show "oc_store ?st' (oc_db ?st' @ toString (int i)) = Some ((xs @ items) ! i)"
      if "i < length (xs @ items)" for i
    proof (cases "i < length xs")
      case True
      have "toString (int i) \<noteq> toString (?len + int j)" for j
        using toString_inj[of "int i" "?len + int j"] True by auto
      from pushOps_other[of items "toString (int i)" ?len "oc_db st" "oc_store st", OF this]
        holdsD(3)[OF assms(1) True] toString_not_meta[of "int i"] True
      show ?thesis by (simp add: level_put_def nth_append)
    next
      case False
      with that have j: "i - length xs < length items" by simp
      from False have e: "?len + int (i - length xs) = int i" by simp
      from pushOps_slot[OF j, of "oc_db st" ?len "oc_store st"] e toString_not_meta[of "int i"] False
      show ?thesis by (simp add: level_put_def nth_append)
    qed
  qed
  with r show ?thesis by blast
qed

lemma created_holds_nothing:
  "createOrderedCollection d name = Inr st \<Longrightarrow> holds st []"
  by (auto simp add: createOrderedCollection_def newOrderedCollection_def holds_def Let_def
      oc_db_get_def level_get_def level_put_def sub_def makeSubDbId_def split: if_splits)

text \<open>
  C4. \<open>get\<close> and \<open>set\<close> reject an index above the length
  (\<open>get_above_length\<close>, \<open>set_above_length\<close>) and serve an index below it
  (\<open>get_in_bounds\<close>, \<open>set_in_bounds\<close>), but their check is \<open>index > len\<close>
  and lets \<open>index = length\<close> through. On the collection that holds \<open>[1, 2, 3]\<close>,
  \<open>get(3)\<close> is rejected by the engine with \<open>NotFound\<close>, not by the bounds
  check, and \<open>set(3, 9)\<close> resolves: it writes slot 3 and leaves the stored length
  at 3.
\<close>

theorem get_set_at_length_pass_bounds_check:
  "holds (pushedOnTest [JNum 1, JNum 2, JNum 3]) [JNum 1, JNum 2, JNum 3]
   \<and> oc_get 3 (pushedOnTest [JNum 1, JNum 2, JNum 3]) = Rejected NotFound
   \<and> fst (oc_set 3 (JNum 9) (pushedOnTest [JNum 1, JNum 2, JNum 3])) = Resolved ()
   \<and> oc_get 3 (snd (oc_set 3 (JNum 9) (pushedOnTest [JNum 1, JNum 2, JNum 3]))) = Resolved (JNum 9)
   \<and> oc_length (snd (oc_set 3 (JNum 9) (pushedOnTest [JNum 1, JNum 2, JNum 3]))) = Resolved 3"
  by code_simp

text \<open>
  C3. On a collection that holds \<open>ys @ [y]\<close>, \<open>pop\<close> resolves to \<open>y\<close> and
  one batch writes the length \<open>length ys\<close> and deletes the last slot
  (\<open>pop_snoc\<close>). On the empty collection \<open>pop\<close> has no check of the length:
  the read of slot \<open>-1\<close> is rejected inside the promise executor, so the promise of
  \<open>pop()\<close> is never settled, with no error for the caller. The store is unchanged,
  and the lock is that promise, so every later call waits on it for ever.
\<close>

theorem pop_on_empty_never_settles:
  "holds testCollection []
   \<and> fst (oc_pop testCollection) = Pending
   \<and> oc_store (snd (oc_pop testCollection)) = oc_store testCollection
   \<and> lock (snd (oc_pop testCollection)) = LockNeverSettles
   \<and> oc_length (snd (oc_pop testCollection)) = Pending
   \<and> fst (oc_push [JNum 1] (snd (oc_pop testCollection))) = Pending"
proof -
  have p: "fst (oc_pop testCollection) = Pending" by code_simp
  have "holds testCollection []" by code_simp
  moreover have "lock (snd (oc_pop testCollection)) = LockNeverSettles" by code_simp
  moreover have "oc_length (snd (oc_pop testCollection)) = Pending" by code_simp
  moreover have "fst (oc_push [JNum 1] (snd (oc_pop testCollection))) = Pending" by code_simp
  ultimately show ?thesis using p pop_pending_keeps_store[OF p] by simp
qed

text \<open>
  C10, as stated, fails on a collection whose stored length is negative. Such a
  collection is reached through the interface: \<open>set(-1, 7)\<close>, \<open>pop()\<close>,
  \<open>set(-2, 8)\<close>, \<open>pop()\<close> leave the stored length at \<open>-2\<close>, and then the
  negative index \<open>-1\<close> is above it: \<open>get(-1)\<close> and \<open>set(-1, 0)\<close> are
  rejected by the bounds check.
\<close>

theorem negative_index_out_of_bounds_counterexample:
  "oc_length negativeLengthCollection = Resolved (- 2)
   \<and> oc_get (- 1) negativeLengthCollection = Rejected CannotReadOutsideBounds
   \<and> fst (oc_set (- 1) (JNum 0) negativeLengthCollection) = Rejected CannotWriteOutsideBounds"
  by code_simp

text \<open>
  C10, amended. On a collection whose stored length is a number \<open>L \<ge> 0\<close>, for every
  negative index: \<open>get\<close> is never rejected by the bounds check, and is rejected with
  \<open>NotFound\<close> when the slot key is absent; \<open>set\<close> resolves, writes the slot
  under the key of the negative index, and leaves the stored length at \<open>L\<close>.
\<close>

theorem negative_index_passes_bounds_check:
  assumes "oc_length st = Resolved L" and "0 \<le> L" and "index < 0"
  shows "oc_get index st \<noteq> Rejected CannotReadOutsideBounds
       \<and> (oc_db_get st (KNum index) = Inl NotFound \<longrightarrow> oc_get index st = Rejected NotFound)
       \<and> (\<exists>st'. oc_set index v st = (Resolved (), st')
              \<and> oc_db_get st' (KNum index) = Inr v
              \<and> oc_length st' = Resolved L)"
proof -
  have nb: "\<not> index > L" using assms(2,3) by simp
  have e: "oc_db_get st (KNum index) = Inl e \<Longrightarrow> e = NotFound" for e
    by (auto simp add: oc_db_get_def level_get_def split: option.splits)
  have g1: "oc_get index st \<noteq> Rejected CannotReadOutsideBounds"
    using assms(1) nb e by (auto simp add: oc_get_def split: sum.splits)
  have g2: "oc_db_get st (KNum index) = Inl NotFound \<longrightarrow> oc_get index st = Rejected NotFound"
    using assms(1) nb by (simp add: oc_get_def)
  let ?st' = "oc_db_put (KNum index) v (forTotalObservers (ads_set index v) st)"
  have s1: "oc_set index v st = (Resolved (), ?st')"
    using assms(1) nb by (simp add: oc_set_def)
  have s2: "oc_db_get ?st' (KNum index) = Inr v"
    by (simp add: oc_db_put_def oc_db_get_def level_get_def level_put_def)
  have s3: "oc_length ?st' = Resolved L"
    using assms(1) toString_not_meta[of index]
    by (auto simp add: oc_length_def oc_db_put_def oc_db_get_def level_get_def level_put_def
        split: if_splits)
  from g1 g2 s1 s2 s3 show ?thesis by blast
qed

theorem negative_index_passes_bounds_check_witness:
  "oc_length testCollection = Resolved 0 \<and> (0::int) \<le> 0 \<and> (- 1 :: int) < 0
   \<and> oc_db_get testCollection (KNum (- 1)) = Inl NotFound
   \<and> oc_get (- 1) testCollection = Rejected NotFound
   \<and> (\<exists>st'. oc_set (- 1) (JNum 7) testCollection = (Resolved (), st')
          \<and> oc_db_get st' (KNum (- 1)) = Inr (JNum 7)
          \<and> oc_length st' = Resolved 0)"
proof -
  have l: "oc_length testCollection = Resolved 0" by code_simp
  have a: "oc_db_get testCollection (KNum (- 1)) = Inl NotFound" by code_simp
  from negative_index_passes_bounds_check[OF l, of "- 1" "JNum 7"] l a show ?thesis by simp
qed

section \<open>Observers and cancellation\<close>

subsection \<open>Registries\<close>

lemma register_wf:
  "wf_keyObservers n kos \<Longrightarrow> wf_keyObservers (Suc n) (registerKeyObserver key n kos)"
  by (auto simp add: wf_keyObservers_def registerKeyObserver_def list_all_iff Let_def
      split: if_splits) (force+)?

lemma wf_keyObservers_mono: "wf_keyObservers n kos \<Longrightarrow> wf_keyObservers (Suc n) kos"
  by (auto simp add: wf_keyObservers_def list_all_iff) (force+)?

lemma wf_totalObservers_mono: "wf_totalObservers n rs \<Longrightarrow> wf_totalObservers (Suc n) rs"
  by (auto simp add: wf_totalObservers_def list_all_iff) (force+)?

lemma wf_totalObservers_snoc: "wf_totalObservers n rs \<Longrightarrow> wf_totalObservers (Suc n) (rs @ [n])"
  by (auto simp add: wf_totalObservers_def list_all_iff) (force+)?

lemma wf_totalObservers_remove1: "wf_totalObservers n rs \<Longrightarrow> wf_totalObservers n (remove1 r rs)"
  by (auto simp add: wf_totalObservers_def list_all_iff)

lemma register_fresh_only_under:
  "wf_keyObservers n kos \<Longrightarrow> registeredOnlyUnder key n (registerKeyObserver key n kos)"
  by (auto simp add: wf_keyObservers_def registeredOnlyUnder_def registerKeyObserver_def
      list_all_iff Let_def split: if_splits) (force+)?

lemma register_has_entry: "map_of (registerKeyObserver key ds kos) key \<noteq> None"
  by (auto simp add: registerKeyObserver_def Let_def map_of_eq_None_iff image_iff
      split: if_splits) (force+)?

lemma register_keeps_entry:
  "map_of kos k \<noteq> None \<Longrightarrow> map_of (registerKeyObserver key ds kos) k \<noteq> None"
  by (auto simp add: registerKeyObserver_def Let_def map_of_eq_None_iff image_iff
      split: if_splits) (force+)?

lemma register_other_only_under:
  "r \<noteq> ds \<Longrightarrow> registeredOnlyUnder key ds kos \<Longrightarrow>
   registeredOnlyUnder key ds (registerKeyObserver key' r kos)"
  by (auto simp add: registeredOnlyUnder_def registerKeyObserver_def list_all_iff Let_def
      split: if_splits) (force+)?

lemma register_other_unregistered:
  "r \<noteq> ds \<Longrightarrow> unregistered ds kos \<Longrightarrow> unregistered ds (registerKeyObserver key' r kos)"
  by (auto simp add: unregistered_def registerKeyObserver_def list_all_iff Let_def
      split: if_splits) (force+)?

lemma unregister_wf:
  "unregisterKeyObserver key r kos = Inr kos' \<Longrightarrow> wf_keyObservers n kos \<Longrightarrow> wf_keyObservers n kos'"
  by (auto simp add: wf_keyObservers_def unregisterKeyObserver_def list_all_iff
      split: option.splits if_splits dest: notin_set_remove1) (force+)?

lemma unregister_keeps_entry:
  "unregisterKeyObserver key r kos = Inr kos' \<Longrightarrow> map_of kos k \<noteq> None \<Longrightarrow> map_of kos' k \<noteq> None"
  by (auto simp add: unregisterKeyObserver_def map_of_eq_None_iff image_iff
      split: option.splits if_splits) (force+)?

lemma unregister_only_under:
  "unregisterKeyObserver key' r kos = Inr kos' \<Longrightarrow> registeredOnlyUnder key ds kos \<Longrightarrow>
   registeredOnlyUnder key ds kos'"
  by (auto simp add: registeredOnlyUnder_def unregisterKeyObserver_def list_all_iff
      split: option.splits if_splits dest: notin_set_remove1) (force+)?

lemma unregister_unregistered:
  "unregisterKeyObserver key' r kos = Inr kos' \<Longrightarrow> unregistered ds kos \<Longrightarrow> unregistered ds kos'"
  by (auto simp add: unregistered_def unregisterKeyObserver_def list_all_iff
      split: option.splits if_splits dest: notin_set_remove1) (force+)?

lemma unregister_succeeds:
  "map_of kos key \<noteq> None \<Longrightarrow> \<exists>kos'. unregisterKeyObserver key ds kos = Inr kos'"
  by (auto simp add: unregisterKeyObserver_def split: option.splits)

lemma unregister_removes:
  "unregisterKeyObserver key ds kos = Inr kos' \<Longrightarrow> wf_keyObservers n kos \<Longrightarrow>
   registeredOnlyUnder key ds kos \<Longrightarrow> unregistered ds kos'"
  by (auto simp add: wf_keyObservers_def registeredOnlyUnder_def unregistered_def
      unregisterKeyObserver_def list_all_iff split: option.splits if_splits) (force+)?

lemma unregister_again:
  "unregistered ds kos \<Longrightarrow> map_of kos key \<noteq> None \<Longrightarrow> unregisterKeyObserver key ds kos = Inr kos"
proof -
  assume u: "unregistered ds kos" and "map_of kos key \<noteq> None"
  then obtain dss where "map_of kos key = Some dss" by auto
  moreover have "map (\<lambda>(k, l). if k = key then (k, remove1 ds l) else (k, l)) kos = kos"
    using u by (induction kos) (auto simp add: unregistered_def remove1_idem)
  ultimately show ?thesis by (simp add: unregisterKeyObserver_def)
qed

subsection \<open>What each call on an index does to the registries\<close>

lemma fold_onBatchOp_frame [simp]:
  "store (fold onBatchOp ops st) = store st"
  "db (fold onBatchOp ops st) = db st"
  "autoDeleteOnSetUndefined (fold onBatchOp ops st) = autoDeleteOnSetUndefined st"
  "totalObservers (fold onBatchOp ops st) = totalObservers st"
  "keyObservers (fold onBatchOp ops st) = keyObservers st"
  "nextRef (fold onBatchOp ops st) = nextRef st"
proof (induction ops arbitrary: st)
  case Nil
  {
    case 1 show ?case by simp
  next
    case 2 show ?case by simp
  next
    case 3 show ?case by simp
  next
    case 4 show ?case by simp
  next
    case 5 show ?case by simp
  next
    case 6 show ?case by simp
  }
next
  case (Cons b ops)
  {
    case 1 show ?case using Cons.IH(1) by (cases b) simp_all
  next
    case 2 show ?case using Cons.IH(2) by (cases b) simp_all
  next
    case 3 show ?case using Cons.IH(3) by (cases b) simp_all
  next
    case 4 show ?case using Cons.IH(4) by (cases b) simp_all
  next
    case 5 show ?case using Cons.IH(5) by (cases b) simp_all
  next
    case 6 show ?case using Cons.IH(6) by (cases b) simp_all
  }
qed

lemma mutation_registries [simp]:
  "totalObservers (index_set k v st) = totalObservers st"
  "keyObservers (index_set k v st) = keyObservers st"
  "nextRef (index_set k v st) = nextRef st"
  "totalObservers (index_delete k st) = totalObservers st"
  "keyObservers (index_delete k st) = keyObservers st"
  "nextRef (index_delete k st) = nextRef st"
  "totalObservers (db_clear st) = totalObservers st"
  "keyObservers (db_clear st) = keyObservers st"
  "nextRef (db_clear st) = nextRef st"
  "totalObservers (db_batch ops st) = totalObservers st"
  "keyObservers (db_batch ops st) = keyObservers st"
  "nextRef (db_batch ops st) = nextRef st"
  by (simp_all add: index_set_def index_delete_def db_put_def db_del_def db_clear_def
      db_batch_def onBatch_def)

lemma index_clear_registries:
  assumes "index_clear st = Inr st'"
  shows "totalObservers st' = totalObservers st" and "keyObservers st' = keyObservers st"
    and "nextRef st' = nextRef st"
  using assms by (auto simp add: index_clear_def split: sum.splits)

lemma scan_registries:
  "scan r keys st = (out, st') \<Longrightarrow>
   totalObservers st' = totalObservers st \<and> keyObservers st' = keyObservers st
   \<and> nextRef st' = nextRef st \<and> dataSources st' = dataSources st
   \<and> (\<forall>r'. r' \<noteq> r \<longrightarrow> mapDataSources st' r' = mapDataSources st r')"
proof (induction r keys st rule: scan.induct)
  case (1 result st)
  then show ?case by simp
next
  case (2 result key keys st)
  show ?case
  proof (cases "CHR ''!'' \<notin> set key")
    case True
    show ?thesis
    proof (cases "index_get st key")
      case (Inl e)
      with True "2.prems" show ?thesis by simp
    next
      case (Inr v)
      with True "2.prems" "2.IH"(1)[OF True Inr] show ?thesis by simp
    qed
  next
    case False
    with "2.prems" "2.IH"(2) show ?thesis by simp
  qed
qed

lemma observeKey_registries:
  assumes "observeKey key st = Inr (ds, st')"
  shows "ds = nextRef st" and "nextRef st' = Suc (nextRef st)"
    and "keyObservers st' = registerKeyObserver key (nextRef st) (keyObservers st)"
    and "totalObservers st' = totalObservers st"
    and "mapDataSources st' = mapDataSources st"
    and "r \<noteq> nextRef st \<Longrightarrow> dataSources st' r = dataSources st r"
  using assms
  by (auto simp add: observeKey_def Let_def split: if_splits sum.splits)

lemma observeEntireIndex_registries:
  assumes "observeEntireIndex keys st = (out, st')"
  shows "nextRef st' = Suc (nextRef st)"
    and "keyObservers st' = keyObservers st"
    and "totalObservers st' = totalObservers st @ [nextRef st]"
    and "dataSources st' = dataSources st"
    and "r \<noteq> nextRef st \<Longrightarrow> mapDataSources st' r = mapDataSources st r"
proof -
  let ?st1 = "st\<lparr>nextRef := Suc (nextRef st),
                  mapDataSources := (mapDataSources st)(nextRef st := Map.empty),
                  totalObservers := totalObservers st @ [nextRef st]\<rparr>"
  obtain o2 where s: "scan (nextRef st) keys ?st1 = (o2, st')"
    using assms by (cases "scan (nextRef st) keys ?st1")
      (auto simp add: observeEntireIndex_def Let_def split: outcome.splits)
  from scan_registries[OF s]
  show "nextRef st' = Suc (nextRef st)" "keyObservers st' = keyObservers st"
    "totalObservers st' = totalObservers st @ [nextRef st]" "dataSources st' = dataSources st"
    by simp_all
  from scan_registries[OF s]
  show "r \<noteq> nextRef st \<Longrightarrow> mapDataSources st' r = mapDataSources st r" by simp
qed

lemma cancelObserveKey_registries:
  assumes "cancelObserveKey key ds st = Inr st'"
  shows "nextRef st' = nextRef st" and "totalObservers st' = totalObservers st"
    and "unregisterKeyObserver key ds (keyObservers st) = Inr (keyObservers st')"
    and "dataSources st' = dataSources st" and "mapDataSources st' = mapDataSources st"
  using assms by (auto simp add: cancelObserveKey_def split: sum.splits)

subsection \<open>Invariants of the index's registries\<close>

lemma index_step_wf: "index_wf st \<Longrightarrow> index_wf (index_step op st)"
proof (cases op)
  case (ISet k v) then show "index_wf st \<Longrightarrow> ?thesis" by (simp add: index_wf_def)
next
  case (IDelete k) then show "index_wf st \<Longrightarrow> ?thesis" by (simp add: index_wf_def)
next
  case IClear
  then show "index_wf st \<Longrightarrow> ?thesis"
    by (cases "index_clear st") (simp_all add: index_wf_def index_clear_registries)
next
  case (IBatch ops) then show "index_wf st \<Longrightarrow> ?thesis" by (simp add: index_wf_def)
next
  case (IObserveKey key)
  assume w: "index_wf st"
  show ?thesis
  proof (cases "observeKey key st")
    case (Inl e) with IObserveKey w show ?thesis by simp
  next
    case (Inr p)
    obtain ds st' where p: "p = (ds, st')" by (cases p)
    from observeKey_registries(2-4)[OF Inr[unfolded p]] w IObserveKey Inr p show ?thesis
      by (simp add: index_wf_def register_wf wf_totalObservers_mono)
  qed
next
  case (ICancelKey key ds)
  assume w: "index_wf st"
  show ?thesis
  proof (cases "cancelObserveKey key ds st")
    case (Inl e) with ICancelKey w show ?thesis by simp
  next
    case (Inr st')
    from cancelObserveKey_registries(1-3)[OF Inr] w ICancelKey Inr show ?thesis
      by (auto simp add: index_wf_def dest: unregister_wf)
  qed
next
  case (ICancelEntireIndex r)
  then show "index_wf st \<Longrightarrow> ?thesis"
    by (simp add: index_wf_def cancelObserveEntireIndex_def wf_totalObservers_remove1)
qed

lemma index_step_nextRef: "nextRef st \<le> nextRef (index_step op st)"
proof (cases op)
  case IClear
  then show ?thesis by (cases "index_clear st") (simp_all add: index_clear_registries)
next
  case (IObserveKey key)
  show ?thesis
  proof (cases "observeKey key st")
    case (Inl e) with IObserveKey show ?thesis by simp
  next
    case (Inr p)
    obtain ds st' where p: "p = (ds, st')" by (cases p)
    from observeKey_registries(2)[OF Inr[unfolded p]] IObserveKey Inr p show ?thesis by simp
  qed
next
  case (ICancelKey key ds)
  then show ?thesis
    by (cases "cancelObserveKey key ds st") (simp_all add: cancelObserveKey_registries)
qed (simp_all add: cancelObserveEntireIndex_def)

lemma index_step_entry:
  "map_of (keyObservers st) k \<noteq> None \<Longrightarrow> map_of (keyObservers (index_step op st)) k \<noteq> None"
proof (cases op)
  case IClear
  then show "map_of (keyObservers st) k \<noteq> None \<Longrightarrow> ?thesis"
    by (cases "index_clear st") (simp_all add: index_clear_registries)
next
  case (IObserveKey key)
  assume e: "map_of (keyObservers st) k \<noteq> None"
  show ?thesis
  proof (cases "observeKey key st")
    case (Inl e') with IObserveKey e show ?thesis by simp
  next
    case (Inr p)
    obtain ds st' where p: "p = (ds, st')" by (cases p)
    from observeKey_registries(3)[OF Inr[unfolded p]] IObserveKey Inr p e show ?thesis
      by (simp add: register_keeps_entry)
  qed
next
  case (ICancelKey key ds)
  assume e: "map_of (keyObservers st) k \<noteq> None"
  show ?thesis
  proof (cases "cancelObserveKey key ds st")
    case (Inl e') with ICancelKey e show ?thesis by simp
  next
    case (Inr st')
    from cancelObserveKey_registries(3)[OF Inr] ICancelKey Inr e show ?thesis
      by (auto dest: unregister_keeps_entry)
  qed
qed (simp_all add: cancelObserveEntireIndex_def)

lemma index_step_only_under:
  assumes "ds < nextRef st" and "registeredOnlyUnder key ds (keyObservers st)"
  shows "registeredOnlyUnder key ds (keyObservers (index_step op st))"
proof (cases op)
  case IClear
  with assms show ?thesis by (cases "index_clear st") (simp_all add: index_clear_registries)
next
  case (IObserveKey key')
  show ?thesis
  proof (cases "observeKey key' st")
    case (Inl e') with IObserveKey assms show ?thesis by simp
  next
    case (Inr p)
    obtain r st' where p: "p = (r, st')" by (cases p)
    from observeKey_registries(3)[OF Inr[unfolded p]] IObserveKey Inr p assms show ?thesis
      by (simp add: register_other_only_under)
  qed
next
  case (ICancelKey key' r)
  show ?thesis
  proof (cases "cancelObserveKey key' r st")
    case (Inl e') with ICancelKey assms show ?thesis by simp
  next
    case (Inr st')
    from cancelObserveKey_registries(3)[OF Inr] ICancelKey Inr assms show ?thesis
      by (auto dest: unregister_only_under)
  qed
qed (use assms in \<open>simp_all add: cancelObserveEntireIndex_def\<close>)

lemma index_step_unregistered:
  assumes "ds < nextRef st" and "unregistered ds (keyObservers st)"
  shows "unregistered ds (keyObservers (index_step op st))"
proof (cases op)
  case IClear
  with assms show ?thesis by (cases "index_clear st") (simp_all add: index_clear_registries)
next
  case (IObserveKey key')
  show ?thesis
  proof (cases "observeKey key' st")
    case (Inl e') with IObserveKey assms show ?thesis by simp
  next
    case (Inr p)
    obtain r st' where p: "p = (r, st')" by (cases p)
    from observeKey_registries(3)[OF Inr[unfolded p]] IObserveKey Inr p assms show ?thesis
      by (simp add: register_other_unregistered)
  qed
next
  case (ICancelKey key' r)
  show ?thesis
  proof (cases "cancelObserveKey key' r st")
    case (Inl e') with ICancelKey assms show ?thesis by simp
  next
    case (Inr st')
    from cancelObserveKey_registries(3)[OF Inr] ICancelKey Inr assms show ?thesis
      by (auto dest: unregister_unregistered)
  qed
qed (use assms in \<open>simp_all add: cancelObserveEntireIndex_def\<close>)

subsection \<open>An observer that is not registered is not touched\<close>

lemma fold_update_other:
  "r \<notin> set rs \<Longrightarrow> fold (\<lambda>x h. h(x := g x h)) rs h r = h r"
  by (induction rs arbitrary: h) simp_all

lemma fold_set_or_delete_other:
  "r \<notin> set rs \<Longrightarrow>
   fold (\<lambda>mds h. if c then h(mds := f mds h) else h(mds := g mds h)) rs h r = h r"
  by (induction rs arbitrary: h) simp_all

lemma fold_fold_update_other:
  assumes "unregistered ds kos"
  shows "fold (\<lambda>dss h. fold (\<lambda>d h'. h'(d := v)) dss h) (map snd kos) h ds = h ds"
proof -
  define F where "F = (\<lambda>dss (h :: nat \<Rightarrow> 'a). fold (\<lambda>d h'. h'(d := v)) dss h)"
  have one: "F dss h ds = h ds" if "ds \<notin> set dss" for dss h
    unfolding F_def using fold_update_other[OF that, of "\<lambda>d h'. v" h] .
  have "fold F (map snd kos) h ds = h ds" using assms
  proof (induction kos arbitrary: h)
    case Nil
    then show ?case by simp
  next
    case (Cons a kos)
    obtain k dss where a: "a = (k, dss)" by (cases a)
    from Cons.prems a have n: "ds \<notin> set dss" and u: "unregistered ds kos"
      by (simp_all add: unregistered_def)
    have "fold F (map snd (a # kos)) h ds = fold F (map snd kos) (F dss h) ds"
      using a by simp
    also have "\<dots> = F dss h ds" by (rule Cons.IH[OF u])
    also have "\<dots> = h ds" by (rule one[OF n])
    finally show ?case .
  qed
  then show ?thesis unfolding F_def .
qed

lemma unregistered_lookup:
  "unregistered ds kos \<Longrightarrow> map_of kos k = Some dss \<Longrightarrow> ds \<notin> set dss"
  by (auto simp add: unregistered_def list_all_iff dest!: map_of_SomeD)

lemma onKeyChange_dataSources:
  "unregistered ds (keyObservers st) \<Longrightarrow> dataSources (onKeyChange k v st) ds = dataSources st ds"
  by (auto simp add: onKeyChange_def fold_update_other split: option.splits
      dest: unregistered_lookup)

lemma onClear_dataSources:
  "unregistered ds (keyObservers st) \<Longrightarrow> dataSources (onClear st) ds = dataSources st ds"
  by (simp add: onClear_def fold_fold_update_other)

lemma onKeyChange_mapDataSources:
  "r \<notin> set (totalObservers st) \<Longrightarrow> mapDataSources (onKeyChange k v st) r = mapDataSources st r"
  by (simp add: onKeyChange_def fold_set_or_delete_other)

lemma onClear_mapDataSources:
  "r \<notin> set (totalObservers st) \<Longrightarrow> mapDataSources (onClear st) r = mapDataSources st r"
  by (simp add: onClear_def fold_update_other)

lemma onBatch_dataSources:
  "unregistered ds (keyObservers st) \<Longrightarrow> dataSources (fold onBatchOp ops st) ds = dataSources st ds"
proof (induction ops arbitrary: st)
  case Nil
  then show ?case by simp
next
  case (Cons b ops)
  have k: "keyObservers (onBatchOp b st) = keyObservers st" by (cases b) simp_all
  have d: "dataSources (onBatchOp b st) ds = dataSources st ds"
    using Cons.prems by (cases b) (simp_all add: onKeyChange_dataSources onClear_dataSources)
  from Cons.IH[of "onBatchOp b st"] Cons.prems k d show ?case by simp
qed

lemma onBatch_mapDataSources:
  "r \<notin> set (totalObservers st) \<Longrightarrow> mapDataSources (fold onBatchOp ops st) r = mapDataSources st r"
proof (induction ops arbitrary: st)
  case Nil
  then show ?case by simp
next
  case (Cons b ops)
  have k: "totalObservers (onBatchOp b st) = totalObservers st" by (cases b) simp_all
  have d: "mapDataSources (onBatchOp b st) r = mapDataSources st r"
    using Cons.prems by (cases b) (simp_all add: onKeyChange_mapDataSources onClear_mapDataSources)
  from Cons.IH[of "onBatchOp b st"] Cons.prems k d show ?case by simp
qed

lemma mutation_dataSources:
  assumes "unregistered ds (keyObservers st)"
  shows "dataSources (index_set k v st) ds = dataSources st ds"
    and "dataSources (index_delete k st) ds = dataSources st ds"
    and "dataSources (db_clear st) ds = dataSources st ds"
    and "dataSources (db_batch ops st) ds = dataSources st ds"
  using assms
  by (simp_all add: index_set_def index_delete_def db_put_def db_del_def db_clear_def
      db_batch_def onBatch_def onKeyChange_dataSources onClear_dataSources onBatch_dataSources)

lemma mutation_mapDataSources:
  assumes "r \<notin> set (totalObservers st)"
  shows "mapDataSources (index_set k v st) r = mapDataSources st r"
    and "mapDataSources (index_delete k st) r = mapDataSources st r"
    and "mapDataSources (db_clear st) r = mapDataSources st r"
    and "mapDataSources (db_batch ops st) r = mapDataSources st r"
  using assms
  by (simp_all add: index_set_def index_delete_def db_put_def db_del_def db_clear_def
      db_batch_def onBatch_def onKeyChange_mapDataSources onClear_mapDataSources
      onBatch_mapDataSources)

lemma index_clear_observers:
  assumes "index_clear st = Inr st'"
  shows "unregistered ds (keyObservers st) \<Longrightarrow> dataSources st' ds = dataSources st ds"
    and "r \<notin> set (totalObservers st) \<Longrightarrow> mapDataSources st' r = mapDataSources st r"
  using assms
  by (auto simp add: index_clear_def mutation_dataSources mutation_mapDataSources
      split: sum.splits)

lemma index_step_dataSources:
  assumes "ds < nextRef st" and "unregistered ds (keyObservers st)"
  shows "dataSources (index_step op st) ds = dataSources st ds"
proof (cases op)
  case IClear
  with assms show ?thesis by (cases "index_clear st") (simp_all add: index_clear_observers)
next
  case (IObserveKey key')
  show ?thesis
  proof (cases "observeKey key' st")
    case (Inl e') with IObserveKey show ?thesis by simp
  next
    case (Inr p)
    obtain r st' where p: "p = (r, st')" by (cases p)
    from observeKey_registries(6)[OF Inr[unfolded p], of ds] IObserveKey Inr p assms
    show ?thesis by simp
  qed
next
  case (ICancelKey key' r)
  then show ?thesis
    by (cases "cancelObserveKey key' r st") (simp_all add: cancelObserveKey_registries)
qed (use assms in \<open>simp_all add: mutation_dataSources cancelObserveEntireIndex_def\<close>)

lemma index_step_total_absent:
  assumes "r < nextRef st" and "r \<notin> set (totalObservers st)"
  shows "r \<notin> set (totalObservers (index_step op st))"
proof (cases op)
  case IClear
  with assms show ?thesis by (cases "index_clear st") (simp_all add: index_clear_registries)
next
  case (IObserveKey key')
  show ?thesis
  proof (cases "observeKey key' st")
    case (Inl e') with IObserveKey assms show ?thesis by simp
  next
    case (Inr p)
    obtain ds st' where p: "p = (ds, st')" by (cases p)
    from observeKey_registries(4)[OF Inr[unfolded p]] IObserveKey Inr p assms
    show ?thesis by simp
  qed
next
  case (ICancelKey key' ds)
  with assms show ?thesis
    by (cases "cancelObserveKey key' ds st") (simp_all add: cancelObserveKey_registries)
next
  case (ICancelEntireIndex r')
  with assms show ?thesis
    by (auto simp add: cancelObserveEntireIndex_def dest: notin_set_remove1)
qed (use assms in simp_all)

lemma index_step_mapDataSources:
  assumes "r < nextRef st" and "r \<notin> set (totalObservers st)"
  shows "mapDataSources (index_step op st) r = mapDataSources st r"
proof (cases op)
  case IClear
  with assms show ?thesis by (cases "index_clear st") (simp_all add: index_clear_observers)
next
  case (IObserveKey key')
  show ?thesis
  proof (cases "observeKey key' st")
    case (Inl e') with IObserveKey show ?thesis by simp
  next
    case (Inr p)
    obtain ds st' where p: "p = (ds, st')" by (cases p)
    from observeKey_registries(5)[OF Inr[unfolded p]] IObserveKey Inr p show ?thesis by simp
  qed
next
  case (ICancelKey key' ds)
  then show ?thesis
    by (cases "cancelObserveKey key' ds st") (simp_all add: cancelObserveKey_registries)
qed (use assms in \<open>simp_all add: mutation_mapDataSources cancelObserveEntireIndex_def\<close>)

subsection \<open>Cancellation on an index\<close>

lemma index_run_wf: "index_wf st \<Longrightarrow> index_wf (index_run ops st)"
  unfolding index_run_def by (induction ops arbitrary: st) (simp_all add: index_step_wf)

lemma index_run_nextRef: "nextRef st \<le> nextRef (index_run ops st)"
  unfolding index_run_def
proof (induction ops arbitrary: st)
  case Nil
  show ?case by simp
next
  case (Cons op ops)
  from Cons.IH[of "index_step op st"] index_step_nextRef[of st op] show ?case by simp
qed

lemma index_run_registered:
  assumes "ds < nextRef st" and "registeredOnlyUnder key ds (keyObservers st)"
    and "map_of (keyObservers st) key \<noteq> None"
  shows "registeredOnlyUnder key ds (keyObservers (index_run ops st))
       \<and> map_of (keyObservers (index_run ops st)) key \<noteq> None"
  using assms unfolding index_run_def
proof (induction ops arbitrary: st)
  case Nil
  then show ?case by simp
next
  case (Cons op ops)
  have "ds < nextRef (index_step op st)"
    using Cons.prems(1) index_step_nextRef[of st op] by simp
  from Cons.IH[OF this index_step_only_under[OF Cons.prems(1,2)] index_step_entry[OF Cons.prems(3)]]
  show ?case by simp
qed

lemma index_run_cancelled:
  assumes "ds < nextRef st" and "unregistered ds (keyObservers st)"
    and "map_of (keyObservers st) key \<noteq> None"
  shows "unregistered ds (keyObservers (index_run ops st))
       \<and> map_of (keyObservers (index_run ops st)) key \<noteq> None
       \<and> dataSources (index_run ops st) ds = dataSources st ds"
  using assms unfolding index_run_def
proof (induction ops arbitrary: st)
  case Nil
  then show ?case by simp
next
  case (Cons op ops)
  have "ds < nextRef (index_step op st)"
    using Cons.prems(1) index_step_nextRef[of st op] by simp
  from Cons.IH[OF this index_step_unregistered[OF Cons.prems(1,2)] index_step_entry[OF Cons.prems(3)]]
    index_step_dataSources[OF Cons.prems(1,2)]
  show ?case by simp
qed

lemma index_run_total_cancelled:
  assumes "r < nextRef st" and "r \<notin> set (totalObservers st)"
  shows "r \<notin> set (totalObservers (index_run ops st))
       \<and> mapDataSources (index_run ops st) r = mapDataSources st r"
  using assms unfolding index_run_def
proof (induction ops arbitrary: st)
  case Nil
  then show ?case by simp
next
  case (Cons op ops)
  have "r < nextRef (index_step op st)"
    using Cons.prems(1) index_step_nextRef[of st op] by simp
  from Cons.IH[OF this index_step_total_absent[OF Cons.prems]]
    index_step_mapDataSources[OF Cons.prems]
  show ?case by simp
qed

lemma index_key_observer_cancelled:
  assumes "index_wf st" and "observeKey key st = Inr (ds, st1)"
  shows "\<exists>st3. cancelObserveKey key ds (index_run ops1 st1) = Inr st3
           \<and> dataSources (index_run ops2 st3) ds = dataSources st3 ds
           \<and> cancelObserveKey key ds (index_run ops2 st3) = Inr (index_run ops2 st3)"
proof -
  note o = observeKey_registries[OF assms(2)]
  from assms(1) have wk: "wf_keyObservers (nextRef st) (keyObservers st)"
    by (simp add: index_wf_def)
  have w1: "index_wf st1"
    using index_step_wf[OF assms(1), of "IObserveKey key"] assms(2) by simp
  have d1: "ds < nextRef st1" using o(1,2) by simp
  have r1: "registeredOnlyUnder key ds (keyObservers st1)"
    using o(1,3) register_fresh_only_under[OF wk] by simp
  have e1: "map_of (keyObservers st1) key \<noteq> None"
    using o(3) register_has_entry by simp
  let ?st2 = "index_run ops1 st1"
  have w2: "wf_keyObservers (nextRef ?st2) (keyObservers ?st2)"
    using index_run_wf[OF w1, of ops1] by (simp add: index_wf_def)
  have d2: "ds < nextRef ?st2" using d1 index_run_nextRef[of st1 ops1] by simp
  from index_run_registered[OF d1 r1 e1, of ops1]
  have r2: "registeredOnlyUnder key ds (keyObservers ?st2)"
    and e2: "map_of (keyObservers ?st2) key \<noteq> None" by simp_all
  from unregister_succeeds[OF e2, of ds] obtain kos'
    where u: "unregisterKeyObserver key ds (keyObservers ?st2) = Inr kos'" by blast
  let ?st3 = "?st2\<lparr>keyObservers := kos'\<rparr>"
  have c: "cancelObserveKey key ds ?st2 = Inr ?st3" using u by (simp add: cancelObserveKey_def)
  have d3: "ds < nextRef ?st3" using d2 by simp
  have u3: "unregistered ds (keyObservers ?st3)" using unregister_removes[OF u w2 r2] by simp
  have e3: "map_of (keyObservers ?st3) key \<noteq> None"
    using unregister_keeps_entry[OF u e2] by simp
  from index_run_cancelled[OF d3 u3 e3, of ops2]
  have u4: "unregistered ds (keyObservers (index_run ops2 ?st3))"
    and e4: "map_of (keyObservers (index_run ops2 ?st3)) key \<noteq> None"
    and v4: "dataSources (index_run ops2 ?st3) ds = dataSources ?st3 ds" by simp_all
  have "cancelObserveKey key ds (index_run ops2 ?st3) = Inr (index_run ops2 ?st3)"
    using unregister_again[OF u4 e4] by (simp add: cancelObserveKey_def)
  with c v4 show ?thesis by blast
qed

subsection \<open>What each call on an ordered collection does to the registries\<close>

lemma oc_onClear_frame [simp]:
  "oc_store (oc_onClear st) = oc_store st"
  "oc_db (oc_onClear st) = oc_db st"
  "lock (oc_onClear st) = lock st"
  "oc_totalObservers (oc_onClear st) = oc_totalObservers st"
  "oc_keyObservers (oc_onClear st) = oc_keyObservers st"
  "arrayDataSources (oc_onClear st) = arrayDataSources st"
  "oc_nextRef (oc_onClear st) = oc_nextRef st"
  by (simp_all add: oc_onClear_def)

lemma batch_write_registries [simp]:
  "oc_totalObservers (batch_write ops st) = oc_totalObservers st"
  "oc_keyObservers (batch_write ops st) = oc_keyObservers st"
  "arrayDataSources (batch_write ops st) = arrayDataSources st"
  "oc_nextRef (batch_write ops st) = oc_nextRef st"
  by (simp_all add: batch_write_def)

lemma oc_db_put_registries [simp]:
  "oc_totalObservers (oc_db_put k v st) = oc_totalObservers st"
  "oc_keyObservers (oc_db_put k v st) = oc_keyObservers st"
  "arrayDataSources (oc_db_put k v st) = arrayDataSources st"
  "oc_nextRef (oc_db_put k v st) = oc_nextRef st"
  by (simp_all add: oc_db_put_def)

lemma oc_db_clear_registries [simp]:
  "oc_totalObservers (oc_db_clear st) = oc_totalObservers st"
  "oc_keyObservers (oc_db_clear st) = oc_keyObservers st"
  "arrayDataSources (oc_db_clear st) = arrayDataSources st"
  "oc_nextRef (oc_db_clear st) = oc_nextRef st"
  by (simp_all add: oc_db_clear_def)

lemma oc_set_registries [simp]:
  "oc_totalObservers (snd (oc_set i v st)) = oc_totalObservers st"
  "oc_keyObservers (snd (oc_set i v st)) = oc_keyObservers st"
  "oc_nextRef (snd (oc_set i v st)) = oc_nextRef st"
  by (simp_all add: oc_set_def split: outcome.splits)

lemma oc_push_registries [simp]:
  "oc_totalObservers (snd (oc_push items st)) = oc_totalObservers st"
  "oc_keyObservers (snd (oc_push items st)) = oc_keyObservers st"
  "oc_nextRef (snd (oc_push items st)) = oc_nextRef st"
  by (simp_all add: oc_push_def Let_def split: outcome.splits)

lemma oc_pop_registries [simp]:
  "oc_totalObservers (snd (oc_pop st)) = oc_totalObservers st"
  "oc_keyObservers (snd (oc_pop st)) = oc_keyObservers st"
  "oc_nextRef (snd (oc_pop st)) = oc_nextRef st"
  by (simp_all add: oc_pop_def Let_def split: outcome.splits sum.splits)

lemma oc_clear_registries [simp]:
  "oc_totalObservers (snd (oc_clear st)) = oc_totalObservers st"
  "oc_keyObservers (snd (oc_clear st)) = oc_keyObservers st"
  "oc_nextRef (snd (oc_clear st)) = oc_nextRef st"
  by (simp_all add: oc_clear_def)

lemma oc_observeKey_registries:
  assumes "oc_observeKey key st = (out, st')"
  shows "out = Pending \<and> st' = st
       \<or> out = Resolved (oc_nextRef st) \<and> oc_nextRef st' = Suc (oc_nextRef st)
         \<and> oc_keyObservers st' = registerKeyObserver key (oc_nextRef st) (oc_keyObservers st)
         \<and> oc_totalObservers st' = oc_totalObservers st
         \<and> arrayDataSources st' = arrayDataSources st
         \<and> (\<forall>r. r \<noteq> oc_nextRef st \<longrightarrow> oc_dataSources st' r = oc_dataSources st r)"
  using assms
  by (auto simp add: oc_observeKey_def Let_def split: if_splits sum.splits)

lemma observeEntireCollection_registries:
  assumes "observeEntireCollection st = (out, st')"
  shows "(\<forall>r. out \<noteq> Resolved r) \<and> st' = st
       \<or> out = Resolved (oc_nextRef st) \<and> oc_nextRef st' = Suc (oc_nextRef st)
         \<and> oc_keyObservers st' = oc_keyObservers st
         \<and> oc_totalObservers st' = oc_totalObservers st @ [oc_nextRef st]
         \<and> oc_dataSources st' = oc_dataSources st
         \<and> (\<forall>r. r \<noteq> oc_nextRef st \<longrightarrow> arrayDataSources st' r = arrayDataSources st r)"
  using assms
  by (auto simp add: observeEntireCollection_def Let_def split: outcome.splits)

lemma oc_cancelObserveKey_registries:
  assumes "oc_cancelObserveKey key ds st = Inr st'"
  shows "oc_nextRef st' = oc_nextRef st" and "oc_totalObservers st' = oc_totalObservers st"
    and "unregisterKeyObserver key ds (oc_keyObservers st) = Inr (oc_keyObservers st')"
    and "oc_dataSources st' = oc_dataSources st" and "arrayDataSources st' = arrayDataSources st"
  using assms by (auto simp add: oc_cancelObserveKey_def split: sum.splits)

lemma oc_onKeyChange_dataSources:
  "unregistered ds (oc_keyObservers st) \<Longrightarrow>
   oc_dataSources (oc_onKeyChange k v st) ds = oc_dataSources st ds"
  by (cases k) (auto simp add: fold_update_other split: option.splits dest: unregistered_lookup)

lemma oc_onClear_dataSources:
  "unregistered ds (oc_keyObservers st) \<Longrightarrow> oc_dataSources (oc_onClear st) ds = oc_dataSources st ds"
  by (simp add: oc_onClear_def fold_fold_update_other)

lemma oc_onBatch_dataSources:
  "unregistered ds (oc_keyObservers st) \<Longrightarrow>
   oc_dataSources (fold oc_onBatchOp ops st) ds = oc_dataSources st ds"
proof (induction ops arbitrary: st)
  case Nil
  then show ?case by simp
next
  case (Cons b ops)
  have d: "oc_dataSources (oc_onBatchOp b st) ds = oc_dataSources st ds"
    using Cons.prems by (cases b) (simp_all add: oc_onKeyChange_dataSources)
  from Cons.IH[of "oc_onBatchOp b st"] Cons.prems d show ?case by simp
qed

lemma forTotalObservers_other:
  "r \<notin> set (oc_totalObservers st) \<Longrightarrow> arrayDataSources (forTotalObservers f st) r = arrayDataSources st r"
  by (simp add: forTotalObservers_def fold_update_other)

lemma batch_write_dataSources:
  "unregistered ds (oc_keyObservers st) \<Longrightarrow>
   oc_dataSources (batch_write ops st) ds = oc_dataSources st ds"
  using oc_onBatch_dataSources[of ds "st\<lparr>oc_store := fold (applyBatchOp (oc_db st)) ops (oc_store st)\<rparr>" ops]
  by (simp add: batch_write_def)

lemma oc_db_put_dataSources:
  "unregistered ds (oc_keyObservers st) \<Longrightarrow>
   oc_dataSources (oc_db_put k v st) ds = oc_dataSources st ds"
  using oc_onKeyChange_dataSources[of ds "st\<lparr>oc_store := level_put (oc_store st) (oc_db st @ keyString k) v\<rparr>" k v]
  by (simp add: oc_db_put_def del: oc_onKeyChange.simps)

lemma oc_db_clear_dataSources:
  "unregistered ds (oc_keyObservers st) \<Longrightarrow>
   oc_dataSources (oc_db_clear st) ds = oc_dataSources st ds"
  using oc_onClear_dataSources[of ds "st\<lparr>oc_store := level_clear (oc_store st) (oc_db st)\<rparr>"]
  by (simp add: oc_db_clear_def)

lemma oc_mutation_dataSources:
  assumes "unregistered ds (oc_keyObservers st)"
  shows "oc_dataSources (snd (oc_set i v st)) ds = oc_dataSources st ds"
    and "oc_dataSources (snd (oc_push items st)) ds = oc_dataSources st ds"
    and "oc_dataSources (snd (oc_pop st)) ds = oc_dataSources st ds"
    and "oc_dataSources (snd (oc_clear st)) ds = oc_dataSources st ds"
  using assms
  by (simp_all add: oc_set_def oc_push_def oc_pop_def oc_clear_def Let_def
      batch_write_dataSources oc_db_put_dataSources oc_db_clear_dataSources
      split: outcome.splits sum.splits)

lemma oc_mutation_arrayDataSources:
  assumes "r \<notin> set (oc_totalObservers st)"
  shows "arrayDataSources (snd (oc_set i v st)) r = arrayDataSources st r"
    and "arrayDataSources (snd (oc_push items st)) r = arrayDataSources st r"
    and "arrayDataSources (snd (oc_pop st)) r = arrayDataSources st r"
    and "arrayDataSources (snd (oc_clear st)) r = arrayDataSources st r"
  using assms
  by (simp_all add: oc_set_def oc_push_def oc_pop_def oc_clear_def Let_def
      forTotalObservers_other split: outcome.splits sum.splits)

subsection \<open>Invariants of the ordered collection's registries\<close>

lemma oc_step_wf: "oc_wf st \<Longrightarrow> oc_wf (oc_step op st)"
proof (cases op)
  case (OObserveKey key)
  assume w: "oc_wf st"
  obtain out st' where o: "oc_observeKey key st = (out, st')" by (cases "oc_observeKey key st")
  from oc_observeKey_registries[OF o] w OObserveKey o show ?thesis
    by (auto simp add: oc_wf_def register_wf wf_totalObservers_mono)
next
  case OObserveEntireCollection
  assume w: "oc_wf st"
  obtain out st' where o: "observeEntireCollection st = (out, st')"
    by (cases "observeEntireCollection st")
  from observeEntireCollection_registries[OF o] w OObserveEntireCollection o show ?thesis
    by (auto simp add: oc_wf_def wf_keyObservers_mono wf_totalObservers_snoc)
next
  case (OCancelKey key ds)
  assume w: "oc_wf st"
  show ?thesis
  proof (cases "oc_cancelObserveKey key ds st")
    case (Inl e) with OCancelKey w show ?thesis by simp
  next
    case (Inr st')
    from oc_cancelObserveKey_registries(1-3)[OF Inr] w OCancelKey Inr show ?thesis
      by (auto simp add: oc_wf_def dest: unregister_wf)
  qed
next
  case (OCancelEntireCollection r)
  then show "oc_wf st \<Longrightarrow> ?thesis"
    by (simp add: oc_wf_def cancelObserveEntireCollection_def wf_totalObservers_remove1)
qed (simp_all add: oc_wf_def)

lemma oc_step_nextRef: "oc_nextRef st \<le> oc_nextRef (oc_step op st)"
proof (cases op)
  case (OObserveKey key)
  obtain out st' where o: "oc_observeKey key st = (out, st')" by (cases "oc_observeKey key st")
  from oc_observeKey_registries[OF o] OObserveKey o show ?thesis by auto
next
  case OObserveEntireCollection
  obtain out st' where o: "observeEntireCollection st = (out, st')"
    by (cases "observeEntireCollection st")
  from observeEntireCollection_registries[OF o] OObserveEntireCollection o show ?thesis by auto
next
  case (OCancelKey key ds)
  then show ?thesis
    by (cases "oc_cancelObserveKey key ds st") (simp_all add: oc_cancelObserveKey_registries)
qed (simp_all add: cancelObserveEntireCollection_def)

lemma oc_step_entry:
  assumes "map_of (oc_keyObservers st) k \<noteq> None"
  shows "map_of (oc_keyObservers (oc_step op st)) k \<noteq> None"
proof (cases op)
  case (OObserveKey key)
  obtain out st' where o: "oc_observeKey key st = (out, st')" by (cases "oc_observeKey key st")
  from oc_observeKey_registries[OF o]
  consider "st' = st"
    | "oc_keyObservers st' = registerKeyObserver key (oc_nextRef st) (oc_keyObservers st)"
    by blast
  then show ?thesis
  proof cases
    case 1
    with OObserveKey o assms show ?thesis by simp
  next
    case 2
    with OObserveKey o register_keeps_entry[OF assms, of key "oc_nextRef st"] show ?thesis
      by simp
  qed
next
  case OObserveEntireCollection
  obtain out st' where o: "observeEntireCollection st = (out, st')"
    by (cases "observeEntireCollection st")
  from observeEntireCollection_registries[OF o] OObserveEntireCollection o assms show ?thesis
    by auto
next
  case (OCancelKey key ds)
  show ?thesis
  proof (cases "oc_cancelObserveKey key ds st")
    case (Inl e') with OCancelKey assms show ?thesis by simp
  next
    case (Inr st')
    from oc_cancelObserveKey_registries(3)[OF Inr] OCancelKey Inr assms show ?thesis
      by (auto dest: unregister_keeps_entry)
  qed
qed (use assms in \<open>simp_all add: cancelObserveEntireCollection_def\<close>)

lemma oc_step_only_under:
  assumes "ds < oc_nextRef st" and "registeredOnlyUnder key ds (oc_keyObservers st)"
  shows "registeredOnlyUnder key ds (oc_keyObservers (oc_step op st))"
proof (cases op)
  case (OObserveKey key')
  obtain out st' where o: "oc_observeKey key' st = (out, st')" by (cases "oc_observeKey key' st")
  from oc_observeKey_registries[OF o] OObserveKey o assms show ?thesis
    by (auto simp add: register_other_only_under)
next
  case OObserveEntireCollection
  obtain out st' where o: "observeEntireCollection st = (out, st')"
    by (cases "observeEntireCollection st")
  from observeEntireCollection_registries[OF o] OObserveEntireCollection o assms show ?thesis
    by auto
next
  case (OCancelKey key' r)
  show ?thesis
  proof (cases "oc_cancelObserveKey key' r st")
    case (Inl e') with OCancelKey assms show ?thesis by simp
  next
    case (Inr st')
    from oc_cancelObserveKey_registries(3)[OF Inr] OCancelKey Inr assms show ?thesis
      by (auto dest: unregister_only_under)
  qed
qed (use assms in \<open>simp_all add: cancelObserveEntireCollection_def\<close>)

lemma oc_step_unregistered:
  assumes "ds < oc_nextRef st" and "unregistered ds (oc_keyObservers st)"
  shows "unregistered ds (oc_keyObservers (oc_step op st))"
proof (cases op)
  case (OObserveKey key')
  obtain out st' where o: "oc_observeKey key' st = (out, st')" by (cases "oc_observeKey key' st")
  from oc_observeKey_registries[OF o] OObserveKey o assms show ?thesis
    by (auto simp add: register_other_unregistered)
next
  case OObserveEntireCollection
  obtain out st' where o: "observeEntireCollection st = (out, st')"
    by (cases "observeEntireCollection st")
  from observeEntireCollection_registries[OF o] OObserveEntireCollection o assms show ?thesis
    by auto
next
  case (OCancelKey key' r)
  show ?thesis
  proof (cases "oc_cancelObserveKey key' r st")
    case (Inl e') with OCancelKey assms show ?thesis by simp
  next
    case (Inr st')
    from oc_cancelObserveKey_registries(3)[OF Inr] OCancelKey Inr assms show ?thesis
      by (auto dest: unregister_unregistered)
  qed
qed (use assms in \<open>simp_all add: cancelObserveEntireCollection_def\<close>)

lemma oc_step_dataSources:
  assumes "ds < oc_nextRef st" and "unregistered ds (oc_keyObservers st)"
  shows "oc_dataSources (oc_step op st) ds = oc_dataSources st ds"
proof (cases op)
  case (OObserveKey key')
  obtain out st' where o: "oc_observeKey key' st = (out, st')" by (cases "oc_observeKey key' st")
  from oc_observeKey_registries[OF o] OObserveKey o assms show ?thesis by auto
next
  case OObserveEntireCollection
  obtain out st' where o: "observeEntireCollection st = (out, st')"
    by (cases "observeEntireCollection st")
  from observeEntireCollection_registries[OF o] OObserveEntireCollection o show ?thesis by auto
next
  case (OCancelKey key' r)
  then show ?thesis
    by (cases "oc_cancelObserveKey key' r st") (simp_all add: oc_cancelObserveKey_registries)
qed (use assms in \<open>simp_all add: oc_mutation_dataSources cancelObserveEntireCollection_def\<close>)

lemma oc_step_total_absent:
  assumes "r < oc_nextRef st" and "r \<notin> set (oc_totalObservers st)"
  shows "r \<notin> set (oc_totalObservers (oc_step op st))"
proof (cases op)
  case (OObserveKey key')
  obtain out st' where o: "oc_observeKey key' st = (out, st')" by (cases "oc_observeKey key' st")
  from oc_observeKey_registries[OF o] OObserveKey o assms show ?thesis by auto
next
  case OObserveEntireCollection
  obtain out st' where o: "observeEntireCollection st = (out, st')"
    by (cases "observeEntireCollection st")
  from observeEntireCollection_registries[OF o] OObserveEntireCollection o assms show ?thesis
    by auto
next
  case (OCancelKey key' ds)
  with assms show ?thesis
    by (cases "oc_cancelObserveKey key' ds st") (simp_all add: oc_cancelObserveKey_registries)
next
  case (OCancelEntireCollection r')
  with assms show ?thesis
    by (auto simp add: cancelObserveEntireCollection_def dest: notin_set_remove1)
qed (use assms in simp_all)

lemma oc_step_arrayDataSources:
  assumes "r < oc_nextRef st" and "r \<notin> set (oc_totalObservers st)"
  shows "arrayDataSources (oc_step op st) r = arrayDataSources st r"
proof (cases op)
  case (OObserveKey key')
  obtain out st' where o: "oc_observeKey key' st = (out, st')" by (cases "oc_observeKey key' st")
  from oc_observeKey_registries[OF o] OObserveKey o show ?thesis by auto
next
  case OObserveEntireCollection
  obtain out st' where o: "observeEntireCollection st = (out, st')"
    by (cases "observeEntireCollection st")
  from observeEntireCollection_registries[OF o] OObserveEntireCollection o assms show ?thesis
    by auto
next
  case (OCancelKey key' ds)
  then show ?thesis
    by (cases "oc_cancelObserveKey key' ds st") (simp_all add: oc_cancelObserveKey_registries)
qed (use assms in \<open>simp_all add: oc_mutation_arrayDataSources cancelObserveEntireCollection_def\<close>)

subsection \<open>Cancellation on an ordered collection\<close>

lemma oc_run_wf: "oc_wf st \<Longrightarrow> oc_wf (oc_run ops st)"
  unfolding oc_run_def by (induction ops arbitrary: st) (simp_all add: oc_step_wf)

lemma oc_run_nextRef: "oc_nextRef st \<le> oc_nextRef (oc_run ops st)"
  unfolding oc_run_def
proof (induction ops arbitrary: st)
  case Nil
  show ?case by simp
next
  case (Cons op ops)
  from Cons.IH[of "oc_step op st"] oc_step_nextRef[of st op] show ?case by simp
qed

lemma oc_run_registered:
  assumes "ds < oc_nextRef st" and "registeredOnlyUnder key ds (oc_keyObservers st)"
    and "map_of (oc_keyObservers st) key \<noteq> None"
  shows "registeredOnlyUnder key ds (oc_keyObservers (oc_run ops st))
       \<and> map_of (oc_keyObservers (oc_run ops st)) key \<noteq> None"
  using assms unfolding oc_run_def
proof (induction ops arbitrary: st)
  case Nil
  then show ?case by simp
next
  case (Cons op ops)
  have "ds < oc_nextRef (oc_step op st)"
    using Cons.prems(1) oc_step_nextRef[of st op] by simp
  from Cons.IH[OF this oc_step_only_under[OF Cons.prems(1,2)] oc_step_entry[OF Cons.prems(3)]]
  show ?case by simp
qed

lemma oc_run_cancelled:
  assumes "ds < oc_nextRef st" and "unregistered ds (oc_keyObservers st)"
    and "map_of (oc_keyObservers st) key \<noteq> None"
  shows "unregistered ds (oc_keyObservers (oc_run ops st))
       \<and> map_of (oc_keyObservers (oc_run ops st)) key \<noteq> None
       \<and> oc_dataSources (oc_run ops st) ds = oc_dataSources st ds"
  using assms unfolding oc_run_def
proof (induction ops arbitrary: st)
  case Nil
  then show ?case by simp
next
  case (Cons op ops)
  have "ds < oc_nextRef (oc_step op st)"
    using Cons.prems(1) oc_step_nextRef[of st op] by simp
  from Cons.IH[OF this oc_step_unregistered[OF Cons.prems(1,2)] oc_step_entry[OF Cons.prems(3)]]
    oc_step_dataSources[OF Cons.prems(1,2)]
  show ?case by simp
qed

lemma oc_run_total_cancelled:
  assumes "r < oc_nextRef st" and "r \<notin> set (oc_totalObservers st)"
  shows "r \<notin> set (oc_totalObservers (oc_run ops st))
       \<and> arrayDataSources (oc_run ops st) r = arrayDataSources st r"
  using assms unfolding oc_run_def
proof (induction ops arbitrary: st)
  case Nil
  then show ?case by simp
next
  case (Cons op ops)
  have "r < oc_nextRef (oc_step op st)"
    using Cons.prems(1) oc_step_nextRef[of st op] by simp
  from Cons.IH[OF this oc_step_total_absent[OF Cons.prems]]
    oc_step_arrayDataSources[OF Cons.prems]
  show ?case by simp
qed

lemma oc_key_observer_cancelled:
  assumes "oc_wf st" and "oc_observeKey key st = (Resolved ds, st1)"
  shows "\<exists>st3. oc_cancelObserveKey key ds (oc_run ops1 st1) = Inr st3
           \<and> oc_dataSources (oc_run ops2 st3) ds = oc_dataSources st3 ds
           \<and> oc_cancelObserveKey key ds (oc_run ops2 st3) = Inr (oc_run ops2 st3)"
proof -
  from oc_observeKey_registries[OF assms(2)]
  have o: "ds = oc_nextRef st" "oc_nextRef st1 = Suc (oc_nextRef st)"
    "oc_keyObservers st1 = registerKeyObserver key (oc_nextRef st) (oc_keyObservers st)"
    by simp_all
  from assms(1) have wk: "wf_keyObservers (oc_nextRef st) (oc_keyObservers st)"
    by (simp add: oc_wf_def)
  have w1: "oc_wf st1"
    using oc_step_wf[OF assms(1), of "OObserveKey key"] assms(2) by simp
  have d1: "ds < oc_nextRef st1" using o(1,2) by simp
  have r1: "registeredOnlyUnder key ds (oc_keyObservers st1)"
    using o(1,3) register_fresh_only_under[OF wk] by simp
  have e1: "map_of (oc_keyObservers st1) key \<noteq> None"
    using o(3) register_has_entry by simp
  let ?st2 = "oc_run ops1 st1"
  have w2: "wf_keyObservers (oc_nextRef ?st2) (oc_keyObservers ?st2)"
    using oc_run_wf[OF w1, of ops1] by (simp add: oc_wf_def)
  have d2: "ds < oc_nextRef ?st2" using d1 oc_run_nextRef[of st1 ops1] by simp
  from oc_run_registered[OF d1 r1 e1, of ops1]
  have r2: "registeredOnlyUnder key ds (oc_keyObservers ?st2)"
    and e2: "map_of (oc_keyObservers ?st2) key \<noteq> None" by simp_all
  from unregister_succeeds[OF e2, of ds] obtain kos'
    where u: "unregisterKeyObserver key ds (oc_keyObservers ?st2) = Inr kos'" by blast
  let ?st3 = "?st2\<lparr>oc_keyObservers := kos'\<rparr>"
  have c: "oc_cancelObserveKey key ds ?st2 = Inr ?st3"
    using u by (simp add: oc_cancelObserveKey_def)
  have d3: "ds < oc_nextRef ?st3" using d2 by simp
  have u3: "unregistered ds (oc_keyObservers ?st3)" using unregister_removes[OF u w2 r2] by simp
  have e3: "map_of (oc_keyObservers ?st3) key \<noteq> None"
    using unregister_keeps_entry[OF u e2] by simp
  from oc_run_cancelled[OF d3 u3 e3, of ops2]
  have u4: "unregistered ds (oc_keyObservers (oc_run ops2 ?st3))"
    and e4: "map_of (oc_keyObservers (oc_run ops2 ?st3)) key \<noteq> None"
    and v4: "oc_dataSources (oc_run ops2 ?st3) ds = oc_dataSources ?st3 ds" by simp_all
  have "oc_cancelObserveKey key ds (oc_run ops2 ?st3) = Inr (oc_run ops2 ?st3)"
    using unregister_again[OF u4 e4] by (simp add: oc_cancelObserveKey_def)
  with c v4 show ?thesis by blast
qed

lemma oc_total_observer_cancelled:
  assumes "oc_wf st" and "observeEntireCollection st = (Resolved r, st1)"
    and "st3 = cancelObserveEntireCollection r (oc_run ops1 st1)"
  shows "arrayDataSources (oc_run ops2 st3) r = arrayDataSources st3 r
       \<and> cancelObserveEntireCollection r (oc_run ops2 st3) = oc_run ops2 st3"
proof -
  from observeEntireCollection_registries[OF assms(2)]
  have o: "r = oc_nextRef st" "oc_nextRef st1 = Suc (oc_nextRef st)" by auto
  have w1: "oc_wf st1"
    using oc_step_wf[OF assms(1), of OObserveEntireCollection] assms(2) by simp
  have d1: "r < oc_nextRef st1" using o by simp
  let ?st2 = "oc_run ops1 st1"
  have w2: "distinct (oc_totalObservers ?st2)"
    using oc_run_wf[OF w1, of ops1] by (simp add: oc_wf_def wf_totalObservers_def)
  have d2: "r < oc_nextRef ?st2" using d1 oc_run_nextRef[of st1 ops1] by simp
  have d3: "r < oc_nextRef st3" using d2 assms(3) by (simp add: cancelObserveEntireCollection_def)
  have a3: "r \<notin> set (oc_totalObservers st3)"
    using w2 assms(3) by (simp add: cancelObserveEntireCollection_def)
  from oc_run_total_cancelled[OF d3 a3, of ops2]
  have a4: "r \<notin> set (oc_totalObservers (oc_run ops2 st3))"
    and v4: "arrayDataSources (oc_run ops2 st3) r = arrayDataSources st3 r" by simp_all
  from a4 have "cancelObserveEntireCollection r (oc_run ops2 st3) = oc_run ops2 st3"
    by (simp add: cancelObserveEntireCollection_def remove1_idem)
  with v4 show ?thesis by simp
qed

lemma new_objects_wf: "index_wf (newIndex s h c)" "oc_wf (newOrderedCollection s h)"
  by (simp_all add: index_wf_def oc_wf_def newIndex_def newOrderedCollection_def
      wf_keyObservers_def wf_totalObservers_def)

lemma toArray_holds: "holds st xs \<Longrightarrow> oc_toArray st = Resolved xs"
  using readLoop_holds[of st xs 0 "int (length xs)" "[]"]
  by (simp add: oc_toArray_def holds_length map_nth)

lemma observeKey_succeeds: "\<exists>ds st1. observeKey key st = Inr (ds, st1)"
  by (auto simp add: observeKey_def Let_def has_def index_get_def split: sum.splits)

lemma oc_observeKey_succeeds:
  "lock st \<noteq> LockNeverSettles \<Longrightarrow> \<exists>ds st1. oc_observeKey key st = (Resolved ds, st1)"
  by (simp add: oc_observeKey_def Let_def)

lemma observeEntireCollection_succeeds:
  "holds st xs \<Longrightarrow> \<exists>ads st1. observeEntireCollection st = (Resolved ads, st1)"
  by (simp add: observeEntireCollection_def toArray_holds Let_def)

lemma test_objects_wf: "index_wf testIndex" "oc_wf testCollection"
  by (simp_all add: testIndex_def testCollection_def createIndex_def createOrderedCollection_def
      emptyDb_has_nothing Let_def new_objects_wf)

lemma observe_test_scenario:
  "(case observeKey ''hello'' testIndex of
      Inl e \<Rightarrow> False
    | Inr (ds, st1) \<Rightarrow>
        (case cancelObserveKey ''hello'' ds (index_run [ISet ''hello'' (JStr ''world'')] st1) of
           Inl e \<Rightarrow> False
         | Inr st3 \<Rightarrow> dataSources st3 ds = JStr ''world''
                      \<and> dataSources (index_run [IDelete ''hello''] st3) ds = JStr ''world''))"
  by code_simp

section \<open>The scan of the whole index under concurrent writes\<close>

lemma runSchedule_append:
  "runSchedule (xs @ ys) ob = runSchedule ys (runSchedule xs ob)"
  by (simp add: runSchedule_def)

lemma scanStuck_absorbing:
  "phase ob = ScanStuck \<Longrightarrow> phase (runSchedule steps ob) = ScanStuck"
  unfolding runSchedule_def
proof (induction steps arbitrary: ob)
  case Nil
  then show ?case by simp
next
  case (Cons s steps)
  have "phase (schedStep s ob) = ScanStuck"
    using Cons.prems by (cases s) (simp_all add: scanStep_def)
  from Cons.IH[OF this] show ?case by simp
qed

lemma scan_steps_refine:
  assumes "phase ob = AtCursor" and "cursor ob = keys"
  shows "\<exists>n. ix (runSchedule (replicate n Scan) ob) = snd (scan (result ob) keys (ix ob))
           \<and> phase (runSchedule (replicate n Scan) ob)
               = (case fst (scan (result ob) keys (ix ob)) of
                    Resolved u \<Rightarrow> ScanResolved | Rejected e \<Rightarrow> ScanStuck | Pending \<Rightarrow> ScanStuck)"
  using assms
proof (induction keys arbitrary: ob)
  case Nil
  then have "ix (runSchedule (replicate 1 Scan) ob) = ix ob"
    and "phase (runSchedule (replicate 1 Scan) ob) = ScanResolved"
    by (simp_all add: runSchedule_def scanStep_def)
  then show ?case by (intro exI[of _ 1]) simp
next
  case (Cons key keys)
  show ?case
  proof (cases "CHR ''!'' \<notin> set key")
    case False
    let ?ob1 = "ob\<lparr>cursor := keys\<rparr>"
    have s1: "runSchedule (replicate 1 Scan) ob = ?ob1"
      using Cons.prems False by (simp add: runSchedule_def scanStep_def)
    from Cons.IH[of ?ob1] Cons.prems obtain n where
      n: "ix (runSchedule (replicate n Scan) ?ob1) = snd (scan (result ob) keys (ix ob))"
         "phase (runSchedule (replicate n Scan) ?ob1)
            = (case fst (scan (result ob) keys (ix ob)) of
                 Resolved u \<Rightarrow> ScanResolved | Rejected e \<Rightarrow> ScanStuck | Pending \<Rightarrow> ScanStuck)"
      by auto
    have "runSchedule (replicate (1 + n) Scan) ob = runSchedule (replicate n Scan) ?ob1"
      using s1 by (simp only: replicate_add runSchedule_append)
    with n False show ?thesis by (intro exI[of _ "1 + n"]) simp
  next
    case True
    show ?thesis
    proof (cases "index_get (ix ob) key")
      case (Inl e)
      have "runSchedule (replicate 3 Scan) ob = ob\<lparr>cursor := keys, phase := ScanStuck\<rparr>"
        using Cons.prems True Inl
        by (simp add: runSchedule_def scanStep_def numeral_3_eq_3)
      with True Inl show ?thesis by (intro exI[of _ 3]) simp
    next
      case (Inr v)
      let ?st' = "(ix ob)\<lparr>mapDataSources :=
                       (mapDataSources (ix ob))(result ob := (mapDataSources (ix ob) (result ob))(key \<mapsto> v))\<rparr>"
      let ?ob3 = "ob\<lparr>cursor := keys, ix := ?st', phase := AtCursor\<rparr>"
      have s3: "runSchedule (replicate 3 Scan) ob = ?ob3"
        using Cons.prems True Inr
        by (simp add: runSchedule_def scanStep_def numeral_3_eq_3)
      from Cons.IH[of ?ob3] obtain n where
        n: "ix (runSchedule (replicate n Scan) ?ob3) = snd (scan (result ob) keys ?st')"
           "phase (runSchedule (replicate n Scan) ?ob3)
              = (case fst (scan (result ob) keys ?st') of
                   Resolved u \<Rightarrow> ScanResolved | Rejected e \<Rightarrow> ScanStuck | Pending \<Rightarrow> ScanStuck)"
        by auto
      have "runSchedule (replicate (3 + n) Scan) ob = runSchedule (replicate n Scan) ?ob3"
        using s3 by (simp only: replicate_add runSchedule_append)
      with n True Inr show ?thesis by (intro exI[of _ "3 + n"]) simp
    qed
  qed
qed

text \<open>
  C1. With no write in between, the steps of the scan compute what
  \<open>observeEntireIndex\<close> computes (\<open>scan_steps_refine\<close>). With writes in between,
  the claim fails on the index of the test, where \<open>hello0\<close> is deleted and
  \<open>hello1\<close> overwritten while the scan runs:
  \<^item> under \<open>staleSchedule\<close> the scan completes, the stored value of \<open>hello1\<close> is
    \<open>notworld\<close>, and the returned view has \<open>hello1\<close> at \<open>world\<close>: the callback
    resumed with the value read before the overwrite and set it over the value the
    event had set;
  \<^item> under \<open>deleteFirstSchedule\<close> the read of the deleted key is rejected inside the
    \<open>async\<close> callback and the promise is never settled
    (\<open>scanStuck_absorbing\<close>): no view is returned.
\<close>

theorem scan_interleaved_with_writes:
  "phase (runSchedule staleSchedule helloObservation) = ScanResolved
   \<and> index_get (ix (runSchedule staleSchedule helloObservation)) ''hello1'' = Inr (JStr ''notworld'')
   \<and> mapDataSources (ix (runSchedule staleSchedule helloObservation))
        (result helloObservation) ''hello1'' = Some (JStr ''world'')
   \<and> phase (runSchedule deleteFirstSchedule helloObservation) = ScanStuck
   \<and> mapDataSources (ix (runSchedule deleteFirstSchedule helloObservation))
        (result helloObservation) ''hello1'' = Some (JStr ''notworld'')"
  by code_simp

subsection \<open>Cancelling the observer of the whole index\<close>

lemma scanStep_frame [simp]:
  "totalObservers (ix (scanStep ob)) = totalObservers (ix ob)"
  "keyObservers (ix (scanStep ob)) = keyObservers (ix ob)"
  "nextRef (ix (scanStep ob)) = nextRef (ix ob)"
  "dataSources (ix (scanStep ob)) = dataSources (ix ob)"
  "result (scanStep ob) = result ob"
  by (simp_all add: scanStep_def split: scan_phase.splits list.splits sum.splits)

lemma scanStep_finished:
  "phase ob = ScanResolved \<or> phase ob = ScanStuck \<Longrightarrow> scanStep ob = ob"
  by (auto simp add: scanStep_def)

lemma schedStep_result [simp]: "result (schedStep s ob) = result ob"
  by (cases s) simp_all

lemma schedStep_wf: "index_wf (ix ob) \<Longrightarrow> index_wf (ix (schedStep s ob))"
  by (cases s) (simp_all add: index_wf_def index_step_wf[unfolded index_wf_def])

lemma schedStep_nextRef: "nextRef (ix ob) \<le> nextRef (ix (schedStep s ob))"
  by (cases s) (simp_all add: index_step_nextRef)

lemma runSchedule_result [simp]: "result (runSchedule steps ob) = result ob"
  unfolding runSchedule_def by (induction steps arbitrary: ob) simp_all

lemma runSchedule_wf: "index_wf (ix ob) \<Longrightarrow> index_wf (ix (runSchedule steps ob))"
  unfolding runSchedule_def by (induction steps arbitrary: ob) (simp_all add: schedStep_wf)

lemma runSchedule_nextRef: "nextRef (ix ob) \<le> nextRef (ix (runSchedule steps ob))"
  unfolding runSchedule_def
proof (induction steps arbitrary: ob)
  case Nil
  show ?case by simp
next
  case (Cons s steps)
  from Cons.IH[of "schedStep s ob"] schedStep_nextRef[of ob s] show ?case by simp
qed

lemma beginObserveEntireIndex_wf:
  assumes "index_wf st"
  shows "index_wf (ix (beginObserveEntireIndex keys st))"
    and "result (beginObserveEntireIndex keys st) = nextRef st"
    and "nextRef (ix (beginObserveEntireIndex keys st)) = Suc (nextRef st)"
  using assms
  by (simp_all add: beginObserveEntireIndex_def index_wf_def wf_keyObservers_mono
      wf_totalObservers_snoc)

lemma view_final_after_scan_and_cancel:
  assumes "phase ob = ScanResolved \<or> phase ob = ScanStuck"
    and "result ob < nextRef (ix ob)"
    and "result ob \<notin> set (totalObservers (ix ob))"
  shows "mapDataSources (ix (runSchedule steps ob)) (result ob) = mapDataSources (ix ob) (result ob)
       \<and> result ob \<notin> set (totalObservers (ix (runSchedule steps ob)))"
  using assms unfolding runSchedule_def
proof (induction steps arbitrary: ob)
  case Nil
  then show ?case by simp
next
  case (Cons s steps)
  show ?case
  proof (cases s)
    case Scan
    with Cons.prems(1) have "schedStep s ob = ob" by (simp add: scanStep_finished)
    with Cons.IH[OF Cons.prems] show ?thesis by simp
  next
    case (Live op)
    let ?ob' = "ob\<lparr>ix := index_step op (ix ob)\<rparr>"
    have p: "phase ?ob' = ScanResolved \<or> phase ?ob' = ScanStuck" using Cons.prems(1) by simp
    have n: "result ?ob' < nextRef (ix ?ob')"
      using Cons.prems(2) index_step_nextRef[of "ix ob" op] by simp
    have a: "result ?ob' \<notin> set (totalObservers (ix ?ob'))"
      using index_step_total_absent[OF Cons.prems(2,3), of op] by simp
    have v: "mapDataSources (ix ?ob') (result ob) = mapDataSources (ix ob) (result ob)"
      using index_step_mapDataSources[OF Cons.prems(2,3), of op] by simp
    from Cons.IH[OF p n a] v Live show ?thesis by simp
  qed
qed

lemma whole_index_observer_cancelled_after_scan:
  assumes "index_wf st"
    and "ob = runSchedule steps1 (beginObserveEntireIndex cursorKeys st)"
    and "phase ob = ScanResolved \<or> phase ob = ScanStuck"
    and "ob' = runSchedule (Live (ICancelEntireIndex (nextRef st)) # steps2) ob"
  shows "mapDataSources (ix ob') (nextRef st) = mapDataSources (ix ob) (nextRef st)
       \<and> cancelObserveEntireIndex (nextRef st) (ix ob') = ix ob'"
proof -
  let ?r = "nextRef st"
  note b = beginObserveEntireIndex_wf[OF assms(1), of cursorKeys]
  have r: "result ob = ?r" using assms(2) b(2) by simp
  have w: "index_wf (ix ob)" using assms(2) runSchedule_wf[OF b(1)] by simp
  have n: "?r < nextRef (ix ob)"
    using assms(2) b(3) runSchedule_nextRef[of "beginObserveEntireIndex cursorKeys st" steps1]
    by simp
  let ?ob3 = "ob\<lparr>ix := cancelObserveEntireIndex ?r (ix ob)\<rparr>"
  have s: "ob' = runSchedule steps2 ?ob3" using assms(4) by (simp add: runSchedule_def)
  have p3: "phase ?ob3 = ScanResolved \<or> phase ?ob3 = ScanStuck" using assms(3) by simp
  have n3: "result ?ob3 < nextRef (ix ?ob3)" using n r by (simp add: cancelObserveEntireIndex_def)
  have a3: "result ?ob3 \<notin> set (totalObservers (ix ?ob3))"
    using w r by (simp add: cancelObserveEntireIndex_def index_wf_def wf_totalObservers_def)
  from view_final_after_scan_and_cancel[OF p3 n3 a3, of steps2] s r
  have v: "mapDataSources (ix ob') ?r = mapDataSources (ix ?ob3) ?r"
    and a: "?r \<notin> set (totalObservers (ix ob'))" by simp_all
  from v have "mapDataSources (ix ob') ?r = mapDataSources (ix ob) ?r"
    by (simp add: cancelObserveEntireIndex_def)
  moreover from a have "cancelObserveEntireIndex ?r (ix ob') = ix ob'"
    by (simp add: cancelObserveEntireIndex_def remove1_idem)
  ultimately show ?thesis by simp
qed

text \<open>
  C7. Cancellation is final for the observers of a key of the index
  (\<open>index_key_observer_cancelled\<close>), for both kinds of observers of the ordered
  collection (\<open>oc_key_observer_cancelled\<close>, \<open>oc_total_observer_cancelled\<close>), and
  for the observer of the whole index once its scan has ended
  (\<open>whole_index_observer_cancelled_after_scan\<close>). It is not while the scan runs:
  \<open>observeEntireIndex\<close> registers the result and hands the cleanup to the token
  before the first step of the scan, and the scan sets what it reads in the result
  whatever the registry holds. Under \<open>cancelDuringScanSchedule\<close> the cleanup empties
  the registry while the view is empty; the overwrite of \<open>hello1\<close> and the scan that
  follow take the view to \<open>hello0 = world\<close>, \<open>hello1 = notworld\<close>.
\<close>

theorem cancel_during_scan_view_changes:
  "result helloObservation = 0
   \<and> totalObservers (ix (runSchedule [Live (ICancelEntireIndex 0)] helloObservation)) = []
   \<and> mapDataSources (ix (runSchedule [Live (ICancelEntireIndex 0)] helloObservation)) 0 ''hello0'' = None
   \<and> mapDataSources (ix (runSchedule [Live (ICancelEntireIndex 0)] helloObservation)) 0 ''hello1'' = None
   \<and> phase (runSchedule cancelDuringScanSchedule helloObservation) = ScanResolved
   \<and> totalObservers (ix (runSchedule cancelDuringScanSchedule helloObservation)) = []
   \<and> mapDataSources (ix (runSchedule cancelDuringScanSchedule helloObservation)) 0 ''hello0''
       = Some (JStr ''world'')
   \<and> mapDataSources (ix (runSchedule cancelDuringScanSchedule helloObservation)) 0 ''hello1''
       = Some (JStr ''notworld'')"
  by code_simp

section \<open>Unawaited calls on the ordered collection\<close>

text \<open>
  One call alone, run by the loop, does what the awaited call does, whatever the
  schedule.
\<close>

lemma level_clear_keys_same [simp]: "level_clear_keys s s pre = level_clear s pre"
  by (auto simp add: level_clear_keys_def level_clear_def)

lemma oc_db_clear_keys_same: "oc_db_clear_keys (oc_store st) st = oc_db_clear st"
  by (simp add: oc_db_clear_keys_def oc_db_clear_def)

lemma choice_one [simp]: "choice schedule (Suc 0) = 0"
  by (simp add: choice_def split: list.splits)

lemmas loop_defs = unawaited_def startLoop_def awaitLock_def settleCall_def settled_def
  serve_def leave_def

lemma lock_update_same: "lock x = l \<Longrightarrow> x\<lparr>lock := l\<rparr> = x"
  by (cases x) simp

lemma oc_db_lock [simp]:
  "lock (oc_db_put k v st) = lock st" "lock (oc_db_clear st) = lock st"
  by (simp_all add: oc_db_put_def oc_db_clear_def)

lemma awaited_push:
  assumes "lock st = LockUndefined"
  shows "\<exists>s. unawaited [CPush items] st schedule 5 = Some s \<and> settled s = snd (oc_push items st)
           \<and> (map_of (outcomes s) 0 = None) = (fst (oc_push items st) = Pending)"
  using assms
  by (auto simp add: loop_defs numeral_eq_Suc oc_push_def oc_length_def Let_def
      split: sum.splits jval.splits)

lemma awaited_pop:
  assumes "lock st = LockUndefined"
  shows "\<exists>s. unawaited [CPop] st schedule 6 = Some s \<and> settled s = snd (oc_pop st)
           \<and> (map_of (outcomes s) 0 = None) = (fst (oc_pop st) = Pending)"
  using assms
  by (auto simp add: loop_defs numeral_eq_Suc oc_pop_def oc_length_def Let_def
      split: sum.splits jval.splits)

lemma awaited_set:
  assumes "lock st = LockUndefined"
  shows "\<exists>s. unawaited [CSet index item] st schedule 5 = Some s \<and> settled s = snd (oc_set index item st)
           \<and> (map_of (outcomes s) 0 = None) = (fst (oc_set index item st) = Pending)"
  using assms
  by (auto simp add: loop_defs numeral_eq_Suc oc_set_def oc_length_def Let_def lock_update_same
      split: sum.splits jval.splits)

lemma awaited_clear:
  assumes "lock st = LockUndefined"
  shows "\<exists>s. unawaited [CClear] st schedule 6 = Some s \<and> settled s = snd (oc_clear st)
           \<and> (map_of (outcomes s) 0 = None) = (fst (oc_clear st) = Pending)"
  using assms
  by (auto simp add: loop_defs numeral_eq_Suc oc_clear_def Let_def lock_update_same
      oc_db_clear_keys_same split: sum.splits jval.splits)

lemma toString_small: "toString 0 = ''0''" "toString 1 = ''1''" "toString 2 = ''2''"
  by code_simp+

lemma testCollection_unfold:
  "testCollection
   = newOrderedCollection (level_put Map.empty ''!testordered!!!meta!!'' (JNum 0)) ''!testordered!''"
proof -
  have "createOrderedCollection emptyDb ''test''
        = Inr (newOrderedCollection
                 (level_put (store emptyDb) (db emptyDb @ makeSubDbId ''testordered'' META_KEY) (JNum 0))
                 (sub (db emptyDb) ''testordered''))"
    by (simp add: createOrderedCollection_def emptyDb_has_nothing Let_def)
  then show ?thesis
    by (simp add: testCollection_def emptyDb_def sub_def makeSubDbId_def META_KEY_def)
qed

lemma three_pushes_any_schedule:
  "\<exists>s. unawaited [CPush [JNum 1], CPush [JNum 2], CPush [JNum 3]] testCollection schedule 20 = Some s
     \<and> outcomes s = [(0, Resolved JUndefined), (1, Resolved JUndefined), (2, Resolved JUndefined)]
     \<and> holds (settled s) [JNum 1, JNum 2, JNum 3]"
  by (simp add: loop_defs numeral_eq_Suc testCollection_unfold newOrderedCollection_def
      enumerate_eq_zip oc_db_get_def level_get_def level_put_def batch_write_def
      forTotalObservers_def holds_def META_KEY_def toString_small)

text \<open>
  C2. Three \<open>push\<close> calls issued without awaiting run one after the other whatever
  the engine's schedule: all three resolve, the length is 3 and the contents are
  \<open>[1, 2, 3]\<close>. But \<open>clear\<close> does not take part in the lock chain. With
  \<open>clear()\<close> and \<open>push(1)\<close> issued without awaiting, under
  \<open>readBeforeClearSchedule\<close>, \<open>push\<close> reads the length 0 before the clear has
  deleted anything and writes slot 0 and the length 1, and \<open>clear\<close> writes the
  length 0 last: both calls resolve, the stored length is 0, \<open>toArray\<close> gives
  \<open>[]\<close>, and slot 0 still holds 1. Run in the order they were issued, each to its
  end, the two calls leave the length 1 and \<open>[1]\<close>.
\<close>

theorem unawaited_calls:
  "(\<exists>s. unawaited [CPush [JNum 1], CPush [JNum 2], CPush [JNum 3]] testCollection schedule 20 = Some s
      \<and> outcomes s = [(0, Resolved JUndefined), (1, Resolved JUndefined), (2, Resolved JUndefined)]
      \<and> oc_length (settled s) = Resolved 3
      \<and> oc_toArray (settled s) = Resolved [JNum 1, JNum 2, JNum 3])
   \<and> map_option outcomes (unawaited [CClear, CPush [JNum 1]] testCollection readBeforeClearSchedule 20)
       = Some [(0, Resolved JUndefined), (1, Resolved JUndefined)]
   \<and> map_option (oc_length \<circ> settled)
         (unawaited [CClear, CPush [JNum 1]] testCollection readBeforeClearSchedule 20)
       = Some (Resolved 0)
   \<and> map_option (oc_toArray \<circ> settled)
         (unawaited [CClear, CPush [JNum 1]] testCollection readBeforeClearSchedule 20)
       = Some (Resolved [])
   \<and> map_option (\<lambda>s. oc_db_get (coll s) (KNum 0))
         (unawaited [CClear, CPush [JNum 1]] testCollection readBeforeClearSchedule 20)
       = Some (Inr (JNum 1))
   \<and> oc_length (oc_run [OClear, OPush [JNum 1]] testCollection) = Resolved 1
   \<and> oc_toArray (oc_run [OClear, OPush [JNum 1]] testCollection) = Resolved [JNum 1]"
proof -
  obtain s where s: "unawaited [CPush [JNum 1], CPush [JNum 2], CPush [JNum 3]] testCollection schedule 20 = Some s"
    "outcomes s = [(0, Resolved JUndefined), (1, Resolved JUndefined), (2, Resolved JUndefined)]"
    and h: "holds (settled s) [JNum 1, JNum 2, JNum 3]"
    using three_pushes_any_schedule by blast
  have 1: "\<exists>s. unawaited [CPush [JNum 1], CPush [JNum 2], CPush [JNum 3]] testCollection schedule 20 = Some s
      \<and> outcomes s = [(0, Resolved JUndefined), (1, Resolved JUndefined), (2, Resolved JUndefined)]
      \<and> oc_length (settled s) = Resolved 3
      \<and> oc_toArray (settled s) = Resolved [JNum 1, JNum 2, JNum 3]"
    using s holds_length[OF h] toArray_holds[OF h] by simp
  have 2: "map_option outcomes (unawaited [CClear, CPush [JNum 1]] testCollection readBeforeClearSchedule 20)
       = Some [(0, Resolved JUndefined), (1, Resolved JUndefined)]"
    by code_simp
  have 3: "map_option (oc_length \<circ> settled)
         (unawaited [CClear, CPush [JNum 1]] testCollection readBeforeClearSchedule 20)
       = Some (Resolved 0)"
    by code_simp
  have 4: "map_option (oc_toArray \<circ> settled)
         (unawaited [CClear, CPush [JNum 1]] testCollection readBeforeClearSchedule 20)
       = Some (Resolved [])"
    by code_simp
  have 5: "map_option (\<lambda>s. oc_db_get (coll s) (KNum 0))
         (unawaited [CClear, CPush [JNum 1]] testCollection readBeforeClearSchedule 20)
       = Some (Inr (JNum 1))"
    by code_simp
  have 6: "oc_length (oc_run [OClear, OPush [JNum 1]] testCollection) = Resolved 1"
    by code_simp
  have 7: "oc_toArray (oc_run [OClear, OPush [JNum 1]] testCollection) = Resolved [JNum 1]"
    by code_simp
  from 1 2 3 4 5 6 7 show ?thesis by blast
qed

end
